theory Spec2Isabelle
  imports Complex_Main
begin


section \<open>Values shared by the execution engine and the synchronization pipeline\<close>

text \<open>
  A thrown JavaScript error, reduced to the properties the code inspects: \<open>err.code\<close>,
  \<open>err.fatal\<close>, \<open>err.message\<close>, \<open>err.response\<close> (status and the system error data of
  the body, \<open>err.response?.data?.error\<close>) and the \<open>cause\<close> an \<open>IntegrationError\<close> wraps.
\<close>

datatype SystemErrorResponseData =
  SystemErrorResponseData (sys_code: string) (sys_message: string)

datatype response =
  Response (response_status: nat) (response_data_error: "SystemErrorResponseData option")

datatype error =
  Error (err_code: "string option") (err_fatal: bool) (err_message: string)
        (err_response: "response option") (err_cause: "error option")

definition TypeError :: "string \<Rightarrow> error" where
  "TypeError msg = Error None False msg None None"

subsection \<open>A fragment of JavaScript values: truthiness, \<open>!\<close> and \<open>??\<close>\<close>

datatype js_value = JSUndefined | JSNull | JSBoolean bool | JSString string

fun truthy :: "js_value \<Rightarrow> bool" where
  "truthy JSUndefined = False"
| "truthy JSNull = False"
| "truthy (JSBoolean b) = b"
| "truthy (JSString s) = (s \<noteq> [])"

definition js_not :: "js_value \<Rightarrow> js_value" where
  "js_not v = JSBoolean (\<not> truthy v)"

fun nullish_coalesce :: "js_value \<Rightarrow> js_value \<Rightarrow> js_value" where
  "nullish_coalesce JSUndefined b = b"
| "nullish_coalesce JSNull b = b"
| "nullish_coalesce a b = a"

section \<open>Steps, start states and step results\<close>

datatype StepResultStatus =
    DISABLED
  | PENDING_EVALUATION
  | SUCCESS
  | FAILURE
  | PARTIAL_SUCCESS_DUE_TO_DEPENDENCY_FAILURE
  | CACHED
  | SKIPPED
  | NOT_EXECUTED

text \<open>Declared output schema of a step: \<open>_type\<close> and the \<open>partial\<close> flag.\<close>

record StepGraphObjectMetadata =
  type_name :: string
  partial :: bool

record Step =
  step_id :: string
  step_name :: string
  dependsOn :: "string list option"
  entities :: "StepGraphObjectMetadata list"
  relationships :: "StepGraphObjectMetadata list"
  mappedRelationships :: "StepGraphObjectMetadata list option"

text \<open>
  \<open>disabled\<close> is declared boolean; \<open>None\<close> stands for a start state that leaves it
  undefined. \<open>stepCachePath\<close> is optional.
\<close>

record StepStartState =
  disabled :: "bool option"
  stepCachePath :: "string option"

type_synonym StepStartStates = "string \<rightharpoonup> StepStartState"

record IntegrationStepResult =
  result_id :: string
  result_name :: string
  result_dependsOn :: "string list option"
  declaredTypes :: "string list"
  partialTypes :: "string list"
  encounteredTypes :: "string list"
  status :: StepResultStatus

definition getDeclaredTypesInStep :: "Step \<Rightarrow> string list \<times> string list" where
  "getDeclaredTypesInStep step =
     (let all = entities step @ relationships step
                @ (case mappedRelationships step of None \<Rightarrow> [] | Some ms \<Rightarrow> ms)
      in (map type_name all, map type_name (filter partial all)))"

definition isStepEnabled :: "StepStartStates \<Rightarrow> string \<Rightarrow> error + bool" where
  "isStepEnabled stepStartStates stepId =
     (case stepStartStates stepId of
        None \<Rightarrow> Inl (TypeError ''Cannot read properties of undefined'')
      | Some s \<Rightarrow> Inr (disabled s = Some False))"

definition cachePathValue :: "StepStartState \<Rightarrow> js_value" where
  "cachePathValue s = (case stepCachePath s of None \<Rightarrow> JSUndefined | Some p \<Rightarrow> JSString p)"

text \<open>\<open>return !!stepStartStates[stepId].stepCachePath ?? false\<close>: the unary \<open>!\<close> binds
  tighter than \<open>??\<close>.\<close>

definition hasCachePath :: "StepStartStates \<Rightarrow> string \<Rightarrow> error + js_value" where
  "hasCachePath stepStartStates stepId =
     (case stepStartStates stepId of
        None \<Rightarrow> Inl (TypeError ''Cannot read properties of undefined'')
      | Some s \<Rightarrow>
          Inr (nullish_coalesce (js_not (js_not (cachePathValue s))) (JSBoolean False)))"

text \<open>The plain truthiness check \<open>!!stepStartStates[stepId].stepCachePath\<close> the
  specification asks for.\<close>

definition hasCachePath_truthiness :: "StepStartStates \<Rightarrow> string \<Rightarrow> error + js_value" where
  "hasCachePath_truthiness stepStartStates stepId =
     (case stepStartStates stepId of
        None \<Rightarrow> Inl (TypeError ''Cannot read properties of undefined'')
      | Some s \<Rightarrow> Inr (js_not (js_not (cachePathValue s))))"

section \<open>The dependency graph\<close>

text \<open>
  \<open>DepGraph\<close> is the class of the package \<open>dependency-graph\<close> that
  \<open>dependencyGraph.ts\<close> imports. Its three tables are objects keyed by node name; they
  are lists of pairs here, in the order \<open>Object.keys\<close> enumerates them. Node names are
  the step ids (\<open>addNode(step.id, step)\<close>).
\<close>

record 'a DepGraph =
  nodes :: "(string \<times> 'a) list"
  outgoingEdges :: "(string \<times> string list) list"
  incomingEdges :: "(string \<times> string list) list"

definition DepGraphCycleError :: error where
  "DepGraphCycleError = Error None False ''Dependency Cycle Found'' None None"

definition NodeDoesNotExist :: "string \<Rightarrow> error" where
  "NodeDoesNotExist n = Error None False (''Node does not exist: '' @ n) None None"

definition hasNode :: "'a DepGraph \<Rightarrow> string \<Rightarrow> bool" where
  "hasNode g n = (map_of (nodes g) n \<noteq> None)"

definition getNodeData :: "'a DepGraph \<Rightarrow> string \<Rightarrow> error + 'a" where
  "getNodeData g n =
     (case map_of (nodes g) n of None \<Rightarrow> Inl (NodeDoesNotExist n) | Some d \<Rightarrow> Inr d)"

text \<open>
  The depth-first search of the package (\<open>createDFS\<close> with \<open>circular = false\<close>).
  \<open>path\<close> is \<open>currentPath\<close>; \<open>vis\<close> lists the nodes marked \<open>visited\<close>, in the order
  they were marked, which is the order in which \<open>result.push\<close> sees them. Meeting a
  node of the current path again raises the cycle error; reading the edges of a name
  that has no entry raises a \<open>TypeError\<close>. The package keeps an explicit stack; the
  recursion below visits the edges of a node in the same order.
\<close>

function dfs_visit ::
    "(string \<times> string list) list \<Rightarrow> string list \<Rightarrow> string \<Rightarrow> string list
      \<Rightarrow> error + string list"
  and dfs_each ::
    "(string \<times> string list) list \<Rightarrow> string list \<Rightarrow> string list \<Rightarrow> string list
      \<Rightarrow> error + string list"
where
  "dfs_visit edges path v vis =
     (if v \<in> set vis then Inr vis
      else if v \<in> set path then Inl DepGraphCycleError
      else case map_of edges v of
             None \<Rightarrow> Inl (TypeError ''Cannot read properties of undefined'')
           | Some cs \<Rightarrow>
               (case dfs_each edges (v # path) cs vis of
                  Inl e \<Rightarrow> Inl e
                | Inr vis' \<Rightarrow> Inr (vis' @ [v])))"
| "dfs_each edges path [] vis = Inr vis"
| "dfs_each edges path (c # cs) vis =
     (case dfs_visit edges path c vis of
        Inl e \<Rightarrow> Inl e
      | Inr vis' \<Rightarrow> dfs_each edges path cs vis')"
  by pat_completeness auto

termination
proof (relation "measures
    [\<lambda>x. case x of
            Inl (edges, path, v, vis) \<Rightarrow> card (fst ` set edges - set path)
          | Inr (edges, path, cs, vis) \<Rightarrow> card (fst ` set edges - set path),
     \<lambda>x. case x of
            Inl (edges, path, v, vis) \<Rightarrow> 0
          | Inr (edges, path, cs, vis) \<Rightarrow> Suc (length cs)]", goal_cases)
  case 1
  show ?case by simp
next
  case (2 edges path v vis cs)
  from 2(3) have "v \<in> fst ` set edges"
    by (metis map_of_SomeD fst_conv image_eqI)
  with 2(2) have "fst ` set edges - set (v # path) \<subset> fst ` set edges - set path"
    by auto
  then have "card (fst ` set edges - set (v # path)) < card (fst ` set edges - set path)"
    by (intro psubset_card_mono) auto
  then show ?case by simp
next
  case 3
  show ?case by simp
next
  case 4
  show ?case by simp
qed

text \<open>Leaves are the visited nodes whose edge list is empty
  (\<open>!leavesOnly || edges[node].length === 0\<close> at the push).\<close>

definition dfs_result :: "(string \<times> string list) list \<Rightarrow> bool \<Rightarrow> string list \<Rightarrow> string list" where
  "dfs_result edges leavesOnly vis =
     (if leavesOnly then filter (\<lambda>n. map_of edges n = Some []) vis else vis)"

text \<open>
  \<open>overallOrder(leavesOnly)\<close>: a first search from every key looks for cycles, then
  the order is that of a search started at every node nothing depends on.
\<close>

definition overallOrder :: "'a DepGraph \<Rightarrow> bool \<Rightarrow> error + string list" where
  "overallOrder g leavesOnly =
     (let keys = map fst (nodes g) in
      if keys = [] then Inr []
      else case dfs_each (outgoingEdges g) [] keys [] of
             Inl e \<Rightarrow> Inl e
           | Inr _ \<Rightarrow>
               if \<exists>n \<in> set keys. map_of (incomingEdges g) n = None
               then Inl (TypeError ''Cannot read properties of undefined'')
               else
                 (case dfs_each (outgoingEdges g) []
                         (filter (\<lambda>n. map_of (incomingEdges g) n = Some []) keys) [] of
                    Inl e \<Rightarrow> Inl e
                  | Inr vis \<Rightarrow> Inr (dfs_result (outgoingEdges g) leavesOnly vis)))"

definition dependenciesOf :: "'a DepGraph \<Rightarrow> string \<Rightarrow> error + string list" where
  "dependenciesOf g n =
     (if hasNode g n
      then (case dfs_visit (outgoingEdges g) [] n [] of
              Inl e \<Rightarrow> Inl e
            | Inr vis \<Rightarrow> Inr (remove1 n vis))
      else Inl (NodeDoesNotExist n))"

definition dependantsOf :: "'a DepGraph \<Rightarrow> string \<Rightarrow> error + string list" where
  "dependantsOf g n =
     (if hasNode g n
      then (case dfs_visit (incomingEdges g) [] n [] of
              Inl e \<Rightarrow> Inl e
            | Inr vis \<Rightarrow> Inr (remove1 n vis))
      else Inl (NodeDoesNotExist n))"

text \<open>\<open>indexOf\<close> and \<open>splice(idx, 1)\<close> delete the first occurrence: \<open>remove1\<close>.\<close>

definition remove_edge :: "string \<Rightarrow> string \<Rightarrow> (string \<times> string list) list \<Rightarrow> (string \<times> string list) list" where
  "remove_edge k x edges = map (\<lambda>(k', es). if k' = k then (k', remove1 x es) else (k', es)) edges"

definition removeDependency :: "'a DepGraph \<Rightarrow> string \<Rightarrow> string \<Rightarrow> 'a DepGraph" where
  "removeDependency g from to =
     (let g1 = (if hasNode g from
                then g\<lparr>outgoingEdges := remove_edge from to (outgoingEdges g)\<rparr> else g)
      in if hasNode g1 to
         then g1\<lparr>incomingEdges := remove_edge to from (incomingEdges g1)\<rparr> else g1)"

definition removeNode :: "'a DepGraph \<Rightarrow> string \<Rightarrow> 'a DepGraph" where
  "removeNode g n =
     (if hasNode g n
      then g\<lparr>nodes := filter (\<lambda>(k, _). k \<noteq> n) (nodes g),
             outgoingEdges :=
               map (\<lambda>(k, es). (k, remove1 n es)) (filter (\<lambda>(k, _). k \<noteq> n) (outgoingEdges g)),
             incomingEdges :=
               map (\<lambda>(k, es). (k, remove1 n es)) (filter (\<lambda>(k, _). k \<noteq> n) (incomingEdges g))\<rparr>
      else g)"


section \<open>The step scheduler\<close>

subsection \<open>The result map\<close>

text \<open>
  \<open>stepResultsMap\<close> is a JavaScript \<open>Map\<close>: \<open>set\<close> on a key that is present
  replaces the value where it stands, \<open>set\<close> on a new key appends, and \<open>values()\<close>
  enumerates in that order.
\<close>

definition map_set :: "'k \<Rightarrow> 'v \<Rightarrow> ('k \<times> 'v) list \<Rightarrow> ('k \<times> 'v) list" where
  "map_set k v m =
     (if k \<in> fst ` set m
      then map (\<lambda>(k', v'). if k' = k then (k', v) else (k', v')) m
      else m @ [(k, v)])"

definition new_Map :: "('k \<times> 'v) list \<Rightarrow> ('k \<times> 'v) list" where
  "new_Map entries = foldl (\<lambda>m (k, v). map_set k v m) [] entries"

text \<open>\<open>xs.map(f)\<close> where \<open>f\<close> may throw: the first error ends the traversal.\<close>

fun map_throwing :: "('a \<Rightarrow> error + 'b) \<Rightarrow> 'a list \<Rightarrow> error + 'b list" where
  "map_throwing f [] = Inr []"
| "map_throwing f (x # xs) =
     (case f x of
        Inl e \<Rightarrow> Inl e
      | Inr y \<Rightarrow> (case map_throwing f xs of Inl e \<Rightarrow> Inl e | Inr ys \<Rightarrow> Inr (y # ys)))"

definition disabledTruthy :: "StepStartStates \<Rightarrow> string \<Rightarrow> error + bool" where
  "disabledTruthy stepStartStates stepId =
     (case stepStartStates stepId of
        None \<Rightarrow> Inl (TypeError ''Cannot read properties of undefined'')
      | Some s \<Rightarrow> Inr (disabled s = Some True))"

definition buildStepResult ::
    "Step DepGraph \<Rightarrow> StepStartStates \<Rightarrow> string \<Rightarrow> error + IntegrationStepResult" where
  "buildStepResult dependencyGraph stepStartStates stepId =
     (case getNodeData dependencyGraph stepId of
        Inl e \<Rightarrow> Inl e
      | Inr step \<Rightarrow>
          (case dependenciesOf dependencyGraph (step_id step) of
             Inl e \<Rightarrow> Inl e
           | Inr deps \<Rightarrow>
               (case map_throwing (disabledTruthy stepStartStates) deps of
                  Inl e \<Rightarrow> Inl e
                | Inr flags \<Rightarrow>
                    (let hasDisabledDependencies = (length (filter (\<lambda>b. b) flags) > 0);
                         (declared, partials) = getDeclaredTypesInStep step
                     in case disabledTruthy stepStartStates (step_id step) of
                          Inl e \<Rightarrow> Inl e
                        | Inr d \<Rightarrow>
                            Inr \<lparr>result_id = step_id step,
                                 result_name = step_name step,
                                 result_dependsOn = dependsOn step,
                                 declaredTypes = declared,
                                 partialTypes = partials,
                                 encounteredTypes = [],
                                 status = (if d \<or> hasDisabledDependencies
                                           then DISABLED else PENDING_EVALUATION)\<rparr>))))"

definition buildStepResultsMap ::
    "Step DepGraph \<Rightarrow> StepStartStates \<Rightarrow> error + (string \<times> IntegrationStepResult) list" where
  "buildStepResultsMap dependencyGraph stepStartStates =
     (case overallOrder dependencyGraph False of
        Inl e \<Rightarrow> Inl e
      | Inr order \<Rightarrow>
          (case map_throwing (buildStepResult dependencyGraph stepStartStates) order of
             Inl e \<Rightarrow> Inl e
           | Inr results \<Rightarrow> Inr (new_Map (map (\<lambda>result. (result_id result, result)) results))))"

definition updateStepResultStatus ::
    "(string \<times> IntegrationStepResult) list \<Rightarrow> string \<Rightarrow> StepResultStatus \<Rightarrow> string list
      \<Rightarrow> (string \<times> IntegrationStepResult) list" where
  "updateStepResultStatus stepResultsMap stepId st encountered =
     (case map_of stepResultsMap stepId of
        None \<Rightarrow> stepResultsMap
      | Some existingResult \<Rightarrow>
          map_set stepId (existingResult\<lparr>status := st, encounteredTypes := encountered\<rparr>)
            stepResultsMap)"

definition isFailureStatus :: "IntegrationStepResult option \<Rightarrow> bool" where
  "isFailureStatus result =
     (case result of
        None \<Rightarrow> False
      | Some r \<Rightarrow> status r = FAILURE \<or> status r = PARTIAL_SUCCESS_DUE_TO_DEPENDENCY_FAILURE)"

definition stepHasDependencyFailure ::
    "Step DepGraph \<Rightarrow> (string \<times> IntegrationStepResult) list \<Rightarrow> string
      \<Rightarrow> error + IntegrationStepResult option option" where
  "stepHasDependencyFailure inputGraph stepResultsMap stepId =
     (case dependenciesOf inputGraph stepId of
        Inl e \<Rightarrow> Inl e
      | Inr deps \<Rightarrow> Inr (find isFailureStatus (map (map_of stepResultsMap) deps)))"

definition isPendingStatus :: "IntegrationStepResult option \<Rightarrow> bool" where
  "isPendingStatus result =
     (case result of None \<Rightarrow> False | Some r \<Rightarrow> status r = PENDING_EVALUATION)"

definition stepDependenciesAreComplete ::
    "Step DepGraph \<Rightarrow> (string \<times> IntegrationStepResult) list \<Rightarrow> string \<Rightarrow> error + bool" where
  "stepDependenciesAreComplete inputGraph stepResultsMap stepId =
     (case dependenciesOf inputGraph stepId of
        Inl e \<Rightarrow> Inl e
      | Inr deps \<Rightarrow>
          Inr (length (filter isPendingStatus (map (map_of stepResultsMap) deps)) = 0))"

definition removeStepFromWorkingGraph :: "'a DepGraph \<Rightarrow> string \<Rightarrow> error + 'a DepGraph" where
  "removeStepFromWorkingGraph workingGraph stepId =
     (case dependantsOf workingGraph stepId of
        Inl e \<Rightarrow> Inl e
      | Inr dependents \<Rightarrow>
          Inr (removeNode
                 (foldl (\<lambda>g dependent. removeDependency g dependent stepId) workingGraph dependents)
                 stepId))"

subsection \<open>What the logger receives\<close>

datatype log_entry =
    LogStepStart string
  | LogStepSuccess string
  | LogStepFailure string error
  | LogStepSummary string
  | LogFailedStepSummary string
  | LogUndeclaredTypes "string list"
  | LogCacheLoaded nat nat
  | LogCacheEmpty

definition maybeLogUndeclaredTypes :: "Step \<Rightarrow> string list \<Rightarrow> log_entry list" where
  "maybeLogUndeclaredTypes step encountered =
     (let declaredTypesSet = set (fst (getDeclaredTypesInStep step));
          undeclaredTypes = filter (\<lambda>t. t \<notin> declaredTypesSet) encountered
      in if length undeclaredTypes \<noteq> 0 then [LogUndeclaredTypes undeclaredTypes] else [])"

subsection \<open>The cache loader\<close>

text \<open>
  What \<open>iterateParsedEntityGraphFiles\<close> and \<open>iterateParsedRelationshipGraphFiles\<close>
  (module \<open>fileSystem\<close>) do with the callback: one call for each parsed file, here the
  number of objects of the file and the error \<open>jobState.addEntities\<close> or
  \<open>addRelationships\<close> raises on them, if any; then possibly an error of the iteration
  itself.
\<close>

record GraphFileIteration =
  files :: "(nat \<times> error option) list"
  iterationError :: "error option"

fun iterate_files ::
    "(nat \<times> error option) list \<Rightarrow> nat \<Rightarrow> StepResultStatus \<Rightarrow> error + nat \<times> StepResultStatus" where
  "iterate_files [] count st = Inr (count, st)"
| "iterate_files ((n, added) # rest) count st =
     (case added of
        Some e \<Rightarrow> Inl e
      | None \<Rightarrow> iterate_files rest (count + n) CACHED)"

definition iterateParsedGraphFiles ::
    "GraphFileIteration \<Rightarrow> nat \<Rightarrow> StepResultStatus \<Rightarrow> error + nat \<times> StepResultStatus" where
  "iterateParsedGraphFiles it count st =
     (case iterate_files (files it) count st of
        Inl e \<Rightarrow> Inl e
      | Inr r \<Rightarrow> (case iterationError it of Some e \<Rightarrow> Inl e | None \<Rightarrow> Inr r))"

definition loadCacheForStep ::
    "GraphFileIteration \<Rightarrow> GraphFileIteration \<Rightarrow> error + StepResultStatus \<times> log_entry list" where
  "loadCacheForStep entityFiles relationshipFiles =
     (case iterateParsedGraphFiles entityFiles 0 FAILURE of
        Inl e \<Rightarrow> Inl e
      | Inr (entitiesCount, st1) \<Rightarrow>
          (case iterateParsedGraphFiles relationshipFiles 0 st1 of
             Inl e \<Rightarrow> Inl e
           | Inr (relationshipCount, st2) \<Rightarrow>
               Inr (st2,
                    if entitiesCount \<noteq> 0 \<or> relationshipCount \<noteq> 0
                    then [LogCacheLoaded entitiesCount relationshipCount]
                    else [LogCacheEmpty])))"

subsection \<open>Running one step\<close>

text \<open>
  Everything \<open>executeStep\<close> awaits is outside the scheduler. A \<open>StepRun\<close> says what
  these collaborators do during one execution of a step: the files the cache loader
  finds, whether \<open>executionHandler\<close> throws, what the type tracker has recorded for the
  step, whether \<open>jobState.flush()\<close> throws, and whether
  \<open>jobState.waitUntilUploadsComplete\<close> exists and throws.
\<close>

record StepRun =
  cacheEntities :: GraphFileIteration
  cacheRelationships :: GraphFileIteration
  executionHandler :: "error option"
  encounteredTypesForStep :: "string list"
  flush :: "error option"
  waitUntilUploadsComplete :: "error option option"

text \<open>The body of the \<open>try\<close> block: the status it assigns and what it logs, or the
  error thrown inside it.\<close>

definition executeStep_try ::
    "Step DepGraph \<Rightarrow> StepStartStates \<Rightarrow> (string \<times> IntegrationStepResult) list \<Rightarrow> Step \<Rightarrow> StepRun
      \<Rightarrow> error + StepResultStatus \<times> log_entry list" where
  "executeStep_try inputGraph stepStartStates stepResultsMap step run =
     (case hasCachePath stepStartStates (step_id step) of
        Inl e \<Rightarrow> Inl e
      | Inr cached \<Rightarrow>
          (case (if truthy cached
                 then (case loadCacheForStep (cacheEntities run) (cacheRelationships run) of
                         Inl e \<Rightarrow> Inl e
                       | Inr (st, logs) \<Rightarrow> Inr (Some st, logs))
                 else Inr (None, [])) of
             Inl e \<Rightarrow> Inl e
           | Inr (st0, logs0) \<Rightarrow>
               (if st0 \<noteq> Some CACHED
                then (case executionHandler run of
                        Some e \<Rightarrow> Inl e
                      | None \<Rightarrow>
                          (case stepHasDependencyFailure inputGraph stepResultsMap (step_id step) of
                             Inl e \<Rightarrow> Inl e
                           | Inr found \<Rightarrow>
                               (if found \<noteq> None
                                then Inr (PARTIAL_SUCCESS_DUE_TO_DEPENDENCY_FAILURE,
                                          logs0 @ [LogStepSuccess (step_id step),
                                                   LogStepSummary (step_id step)])
                                else Inr (SUCCESS,
                                          logs0
                                          @ maybeLogUndeclaredTypes step (encounteredTypesForStep run)
                                          @ [LogStepSuccess (step_id step),
                                             LogStepSummary (step_id step)]))))
                else Inr (CACHED,
                          logs0 @ [LogStepSuccess (step_id step), LogStepSummary (step_id step)]))))"

text \<open>The \<open>try\<close> with its \<open>catch\<close>: a fatal error is thrown again, any other error
  makes the status \<open>FAILURE\<close>.\<close>

definition executeStep_handler ::
    "Step DepGraph \<Rightarrow> StepStartStates \<Rightarrow> (string \<times> IntegrationStepResult) list \<Rightarrow> Step \<Rightarrow> StepRun
      \<Rightarrow> (error + StepResultStatus) \<times> log_entry list" where
  "executeStep_handler inputGraph stepStartStates stepResultsMap step run =
     (case executeStep_try inputGraph stepStartStates stepResultsMap step run of
        Inr (st, logs) \<Rightarrow> (Inr st, LogStepStart (step_id step) # logs)
      | Inl err \<Rightarrow>
          (if err_fatal err then Inl err else Inr FAILURE,
           [LogStepStart (step_id step), LogFailedStepSummary (step_id step),
            LogStepFailure (step_id step) err]))"

text \<open>What follows the \<open>try\<close>: \<open>flush\<close> is awaited outside any \<open>try\<close>, the wait
  for the uploads inside one.\<close>

definition executeStep_status ::
    "Step DepGraph \<Rightarrow> StepStartStates \<Rightarrow> (string \<times> IntegrationStepResult) list \<Rightarrow> Step \<Rightarrow> StepRun
      \<Rightarrow> (error + StepResultStatus) \<times> log_entry list" where
  "executeStep_status inputGraph stepStartStates stepResultsMap step run =
     (case executeStep_handler inputGraph stepStartStates stepResultsMap step run of
        (Inl err, logs) \<Rightarrow> (Inl err, logs)
      | (Inr st, logs) \<Rightarrow>
          (case flush run of
             Some err \<Rightarrow> (Inl err, logs)
           | None \<Rightarrow>
               (case waitUntilUploadsComplete run of
                  None \<Rightarrow> (Inr st, logs)
                | Some None \<Rightarrow> (Inr st, logs)
                | Some (Some err) \<Rightarrow> (Inr FAILURE, logs @ [LogStepFailure (step_id step) err]))))"


subsection \<open>The queue and the promise\<close>

text \<open>
  The state \<open>executeStepDependencyGraph\<close> closes over. \<open>pendingTasks\<close> are the tasks
  added to the promise queue that have not finished, each with the \<open>stepId\<close> and the
  \<open>step\<close> its closure holds. \<open>settled\<close> is the state of the returned promise: the
  first \<open>resolve\<close> or \<open>reject\<close> wins. \<open>timeOperation\<close> (module \<open>metrics\<close>) is taken
  to run its operation and to pass its result or its error on.
\<close>

record sched_state =
  workingGraph :: "Step DepGraph"
  stepResultsMap :: "(string \<times> IntegrationStepResult) list"
  pendingTasks :: "(string \<times> Step) list"
  isPaused :: bool
  settled :: "(error + IntegrationStepResult list) option"
  logged :: "log_entry list"

text \<open>The body of the \<open>forEach\<close> of \<open>enqueueLeafSteps\<close>, over the leaves computed
  before the loop. An error thrown in the body ends the loop and keeps what the
  earlier rounds did.\<close>

fun enqueue_each ::
    "Step DepGraph \<Rightarrow> StepStartStates \<Rightarrow> string list \<Rightarrow> sched_state \<Rightarrow> sched_state \<times> error option" where
  "enqueue_each inputGraph stepStartStates [] s = (s, None)"
| "enqueue_each inputGraph stepStartStates (stepId # rest) s =
     (case getNodeData (workingGraph s) stepId of
        Inl e \<Rightarrow> (s, Some e)
      | Inr step \<Rightarrow>
          (case isStepEnabled stepStartStates stepId of
             Inl e \<Rightarrow> (s, Some e)
           | Inr enabled \<Rightarrow>
               if \<not> enabled then enqueue_each inputGraph stepStartStates rest s
               else
                 (case stepDependenciesAreComplete inputGraph (stepResultsMap s) stepId of
                    Inl e \<Rightarrow> (s, Some e)
                  | Inr dependenciesComplete \<Rightarrow>
                      if \<not> dependenciesComplete then enqueue_each inputGraph stepStartStates rest s
                      else
                        (case removeStepFromWorkingGraph (workingGraph s) stepId of
                           Inl e \<Rightarrow> (s, Some e)
                         | Inr g \<Rightarrow>
                             enqueue_each inputGraph stepStartStates rest
                               (s\<lparr>workingGraph := g,
                                  pendingTasks := pendingTasks s @ [(stepId, step)]\<rparr>)))))"

definition enqueueLeafSteps ::
    "Step DepGraph \<Rightarrow> StepStartStates \<Rightarrow> sched_state \<Rightarrow> sched_state \<times> error option" where
  "enqueueLeafSteps inputGraph stepStartStates s =
     (if isPaused s then (s, None)
      else case overallOrder (workingGraph s) True of
             Inl e \<Rightarrow> (s, Some e)
           | Inr leaves \<Rightarrow> enqueue_each inputGraph stepStartStates leaves s)"

definition reject :: "error \<Rightarrow> sched_state \<Rightarrow> sched_state" where
  "reject err s = (if settled s = None then s\<lparr>settled := Some (Inl err)\<rparr> else s)"

definition handleUnexpectedError :: "error \<Rightarrow> sched_state \<Rightarrow> sched_state" where
  "handleUnexpectedError err s = reject err (s\<lparr>isPaused := True\<rparr>)"

text \<open>\<open>promiseQueue.onIdle().then(() => resolve([...stepResultsMap.values()]))\<close>: the
  queue is idle when no task is left.\<close>

definition onIdle :: "sched_state \<Rightarrow> sched_state" where
  "onIdle s =
     (if pendingTasks s = [] \<and> settled s = None
      then s\<lparr>settled := Some (Inr (map snd (stepResultsMap s)))\<rparr>
      else s)"

text \<open>\<open>executeStep(step)\<close> from its first line to its last, with the error it rejects
  with, if any.\<close>

definition executeStep ::
    "Step DepGraph \<Rightarrow> StepStartStates \<Rightarrow> Step \<Rightarrow> StepRun \<Rightarrow> sched_state \<Rightarrow> sched_state \<times> error option" where
  "executeStep inputGraph stepStartStates step run s =
     (case executeStep_status inputGraph stepStartStates (stepResultsMap s) step run of
        (Inl err, logs) \<Rightarrow> (s\<lparr>logged := logged s @ logs\<rparr>, Some err)
      | (Inr st, logs) \<Rightarrow>
          enqueueLeafSteps inputGraph stepStartStates
            (s\<lparr>logged := logged s @ logs,
               stepResultsMap :=
                 updateStepResultStatus (stepResultsMap s) (step_id step) st
                   (encounteredTypesForStep run)\<rparr>))"

text \<open>A task of the queue runs \<open>executeStep\<close> under \<open>.catch(handleUnexpectedError)\<close>
  and leaves the queue when it has finished.\<close>

definition run_task ::
    "Step DepGraph \<Rightarrow> StepStartStates \<Rightarrow> string \<Rightarrow> Step \<Rightarrow> StepRun \<Rightarrow> sched_state \<Rightarrow> sched_state" where
  "run_task inputGraph stepStartStates stepId step run s =
     (let (s1, rejected) = executeStep inputGraph stepStartStates step run s;
          s2 = (case rejected of None \<Rightarrow> s1 | Some err \<Rightarrow> handleUnexpectedError err s1)
      in onIdle (s2\<lparr>pendingTasks := filter (\<lambda>(k, _). k \<noteq> stepId) (pendingTasks s2)\<rparr>))"

text \<open>The next task to finish is named by its step id; a name that is not in flight
  is no event of the run.\<close>

definition finish_task ::
    "Step DepGraph \<Rightarrow> StepStartStates \<Rightarrow> string \<times> StepRun \<Rightarrow> sched_state \<Rightarrow> sched_state option" where
  "finish_task inputGraph stepStartStates ev s =
     (case map_of (pendingTasks s) (fst ev) of
        None \<Rightarrow> None
      | Some step \<Rightarrow> Some (run_task inputGraph stepStartStates (fst ev) step (snd ev) s))"

fun finish_tasks ::
    "Step DepGraph \<Rightarrow> StepStartStates \<Rightarrow> (string \<times> StepRun) list \<Rightarrow> sched_state \<Rightarrow> sched_state option" where
  "finish_tasks inputGraph stepStartStates [] s = Some s"
| "finish_tasks inputGraph stepStartStates (ev # evs) s =
     (case finish_task inputGraph stepStartStates ev s of
        None \<Rightarrow> None
      | Some s' \<Rightarrow> finish_tasks inputGraph stepStartStates evs s')"

text \<open>The synchronous part of \<open>executeStepDependencyGraph\<close>: \<open>Inl\<close> is an error thrown
  before the promise exists.\<close>

definition start_execution :: "Step DepGraph \<Rightarrow> StepStartStates \<Rightarrow> error + sched_state" where
  "start_execution inputGraph stepStartStates =
     (case buildStepResultsMap inputGraph stepStartStates of
        Inl e \<Rightarrow> Inl e
      | Inr results \<Rightarrow>
          (let s0 = \<lparr>workingGraph = inputGraph, stepResultsMap = results, pendingTasks = [],
                     isPaused = False, settled = None, logged = []\<rparr>;
               (s1, thrown) = enqueueLeafSteps inputGraph stepStartStates s0
           in Inr (onIdle (case thrown of None \<Rightarrow> s1 | Some err \<Rightarrow> reject err s1))))"

text \<open>A run: the start, then the tasks finishing in the order and with the outcomes
  of \<open>evs\<close>. \<open>None\<close> when \<open>evs\<close> names a task that is not in flight.\<close>

definition executeStepDependencyGraph ::
    "Step DepGraph \<Rightarrow> StepStartStates \<Rightarrow> (string \<times> StepRun) list \<Rightarrow> (error + sched_state) option" where
  "executeStepDependencyGraph inputGraph stepStartStates evs =
     (case start_execution inputGraph stepStartStates of
        Inl e \<Rightarrow> Some (Inl e)
      | Inr s0 \<Rightarrow>
          (case finish_tasks inputGraph stepStartStates evs s0 of
             None \<Rightarrow> None
           | Some s \<Rightarrow> Some (Inr s)))"

definition edge_rel :: "(string \<times> string list) list \<Rightarrow> (string \<times> string) set" where
  "edge_rel edges = {(a, b). \<exists>cs. map_of edges a = Some cs \<and> b \<in> set cs}"

definition postorder :: "(string \<times> string list) list \<Rightarrow> string list \<Rightarrow> bool" where
  "postorder E vis =
     (\<forall>i < length vis. \<exists>cs. map_of E (vis ! i) = Some cs \<and> set cs \<subseteq> set (take i vis))"

definition edges_ok ::
    "(string \<times> string list) list \<Rightarrow> (string \<times> string list) list \<Rightarrow> bool" where
  "edges_ok E E' =
     (\<forall>(n, es) \<in> set E. distinct es \<and>
        (\<forall>m \<in> set es. case map_of E' m of None \<Rightarrow> False | Some preds \<Rightarrow> n \<in> set preds))"

definition wf_graph :: "'a DepGraph \<Rightarrow> bool" where
  "wf_graph g =
     (distinct (map fst (nodes g))
      \<and> map fst (outgoingEdges g) = map fst (nodes g)
      \<and> map fst (incomingEdges g) = map fst (nodes g)
      \<and> edges_ok (outgoingEdges g) (incomingEdges g)
      \<and> edges_ok (incomingEdges g) (outgoingEdges g))"

definition names :: "'a DepGraph \<Rightarrow> string set" where
  "names g = fst ` set (nodes g)"

definition deps_rel :: "'a DepGraph \<Rightarrow> (string \<times> string) set" where
  "deps_rel g = edge_rel (outgoingEdges g)"

definition restrict_edges :: "string set \<Rightarrow> (string \<times> string list) list \<Rightarrow> (string \<times> string list) list" where
  "restrict_edges S E = map (\<lambda>(k, es). (k, filter (\<lambda>e. e \<in> S) es)) (filter (\<lambda>(k, _). k \<in> S) E)"

definition restrict_graph :: "'a DepGraph \<Rightarrow> string set \<Rightarrow> 'a DepGraph" where
  "restrict_graph g S =
     g\<lparr>nodes := filter (\<lambda>(k, _). k \<in> S) (nodes g),
       outgoingEdges := restrict_edges S (outgoingEdges g),
       incomingEdges := restrict_edges S (incomingEdges g)\<rparr>"

definition same_but :: "string \<Rightarrow> string \<times> string list \<Rightarrow> string \<times> string list \<Rightarrow> bool" where
  "same_but x a b =
     (fst a = fst b \<and> filter (\<lambda>e. e \<noteq> x) (snd a) = filter (\<lambda>e. e \<noteq> x) (snd b)
      \<and> (distinct (snd b) \<longrightarrow> distinct (snd a)))"

definition same_unless :: "string \<Rightarrow> string \<times> string list \<Rightarrow> string \<times> string list \<Rightarrow> bool" where
  "same_unless x a b = (fst a = fst b \<and> (fst b \<noteq> x \<longrightarrow> snd a = snd b))"

definition edited :: "string \<Rightarrow> 'a DepGraph \<Rightarrow> 'a DepGraph \<Rightarrow> bool" where
  "edited x g' g =
     (nodes g' = nodes g \<and> DepGraph.more g' = DepGraph.more g
      \<and> list_all2 (same_but x) (outgoingEdges g') (outgoingEdges g)
      \<and> list_all2 (same_unless x) (incomingEdges g') (incomingEdges g))"

definition named :: "Step DepGraph \<Rightarrow> bool" where
  "named g = (\<forall>(n, step) \<in> set (nodes g). step_id step = n)"

definition barred :: "Step DepGraph \<Rightarrow> StepStartStates \<Rightarrow> string set" where
  "barred g stepStartStates =
     {n \<in> names g. disabledTruthy stepStartStates n = Inr True
        \<or> (\<exists>d. (n, d) \<in> (deps_rel g)\<^sup>+ \<and> disabledTruthy stepStartStates d = Inr True)}"

definition status_of :: "(string \<times> IntegrationStepResult) list \<Rightarrow> string \<Rightarrow> StepResultStatus option" where
  "status_of results n = map_option status (map_of results n)"

definition initial_status :: "Step DepGraph \<Rightarrow> StepStartStates \<Rightarrow> string \<Rightarrow> StepResultStatus" where
  "initial_status g stepStartStates n =
     (if n \<in> barred g stepStartStates then DISABLED else PENDING_EVALUATION)"

definition ready :: "Step DepGraph \<Rightarrow> StepStartStates \<Rightarrow> sched_state \<Rightarrow> string \<Rightarrow> bool" where
  "ready g stepStartStates s n =
     (isStepEnabled stepStartStates n = Inr True
      \<and> stepDependenciesAreComplete g (stepResultsMap s) n = Inr True)"

definition leafy :: "string list \<Rightarrow> sched_state \<Rightarrow> bool" where
  "leafy leaves s =
     (\<forall>x \<in> set leaves. x \<in> names (workingGraph s)
        \<longrightarrow> map_of (outgoingEdges (workingGraph s)) x = Some [])"

definition quiescent :: "Step DepGraph \<Rightarrow> StepStartStates \<Rightarrow> sched_state \<Rightarrow> bool" where
  "quiescent g stepStartStates s =
     (\<forall>n \<in> names (workingGraph s).
        map_of (outgoingEdges (workingGraph s)) n = Some [] \<longrightarrow> \<not> ready g stepStartStates s n)"

definition base_inv :: "Step DepGraph \<Rightarrow> StepStartStates \<Rightarrow> sched_state \<Rightarrow> bool" where
  "base_inv g stepStartStates s =
     (wf_graph g \<and> named g \<and> acyclic (deps_rel g)
      \<and> (\<exists>S. workingGraph s = restrict_graph g S)
      \<and> barred g stepStartStates \<subseteq> names (workingGraph s)
      \<and> overallOrder g False = Inr (map fst (stepResultsMap s))
      \<and> (\<forall>(k, r) \<in> set (stepResultsMap s). result_id r = k)
      \<and> (\<forall>n \<in> names (workingGraph s).
            status_of (stepResultsMap s) n = Some (initial_status g stepStartStates n))
      \<and> (\<forall>(k, step) \<in> set (pendingTasks s).
            map_of (nodes g) k = Some step \<and> k \<notin> names (workingGraph s)))"

definition live_inv :: "Step DepGraph \<Rightarrow> StepStartStates \<Rightarrow> sched_state \<Rightarrow> bool" where
  "live_inv g stepStartStates s =
     ((\<forall>n \<in> names g - names (workingGraph s).
         n \<notin> fst ` set (pendingTasks s)
           \<longrightarrow> status_of (stepResultsMap s) n \<noteq> Some PENDING_EVALUATION)
      \<and> quiescent g stepStartStates s)"

definition sched_inv :: "Step DepGraph \<Rightarrow> StepStartStates \<Rightarrow> sched_state \<Rightarrow> bool" where
  "sched_inv g stepStartStates s =
     (base_inv g stepStartStates s
      \<and> (settled s = None \<longrightarrow> \<not> isPaused s \<and> live_inv g stepStartStates s)
      \<and> (\<forall>rs. settled s = Some (Inr rs)
            \<longrightarrow> rs = map snd (stepResultsMap s) \<and> pendingTasks s = []
                \<and> live_inv g stepStartStates s))"

definition order_inv :: "Step DepGraph \<Rightarrow> sched_state \<Rightarrow> bool" where
  "order_inv g s =
     (overallOrder g False = Inr (map fst (stepResultsMap s))
      \<and> (\<forall>(k, r) \<in> set (stepResultsMap s). result_id r = k)
      \<and> (\<forall>rs. settled s = Some (Inr rs)
            \<longrightarrow> rs = map snd (stepResultsMap s) \<and> pendingTasks s = []))"

section \<open>The synchronization pipeline\<close>

subsection \<open>JSON values and the size of their serialization\<close>

text \<open>
  Graph objects are the JSON values read from the graph object files. A string is the
  list of the bytes of its UTF-8 encoding, an object the list of its properties in the
  order \<open>for ... in\<close> and \<open>JSON.stringify\<close> enumerate them, a number an integer.
\<close>

datatype json =
    JNull
  | JBool bool
  | JNum int
  | JStr string
  | JArr "json list"
  | JObj "(string \<times> json) list"

text \<open>Truthiness of a value, and of a property that may be missing (\<open>undefined\<close>).\<close>

fun json_truthy :: "json \<Rightarrow> bool" where
  "json_truthy JNull = False"
| "json_truthy (JBool b) = b"
| "json_truthy (JNum n) = (n \<noteq> 0)"
| "json_truthy (JStr s) = (s \<noteq> [])"
| "json_truthy (JArr vs) = True"
| "json_truthy (JObj kvs) = True"

text \<open>\<open>Buffer.byteLength(JSON.stringify(v))\<close>. A character of a string literal takes
  one byte, two when it is escaped with a backslash, six when it is written
  \<open>\u00XX\<close>.\<close>

definition char_bytes :: "char \<Rightarrow> nat" where
  "char_bytes c =
     (if c = CHR 0x22 \<or> c = CHR 0x5C then 2
      else if of_char c < (32 :: nat)
      then (if of_char c \<in> {8, 9, 10, 12, 13 :: nat} then 2 else 6)
      else 1)"

definition quoted_bytes :: "string \<Rightarrow> nat" where
  "quoted_bytes s = 2 + sum_list (map char_bytes s)"

function digits :: "nat \<Rightarrow> nat" where
  "digits n = (if n < 10 then 1 else 1 + digits (n div 10))"
  by pat_completeness auto
termination
  by (relation "measure (\<lambda>n. n)") auto

definition number_bytes :: "int \<Rightarrow> nat" where
  "number_bytes n = (if n < 0 then 1 else 0) + digits (nat \<bar>n\<bar>)"

text \<open>\<open>n\<close> members and the commas between them.\<close>

definition joined_bytes :: "nat list \<Rightarrow> nat" where
  "joined_bytes sizes = sum_list sizes + (length sizes - 1)"

fun json_bytes :: "json \<Rightarrow> nat" where
  "json_bytes JNull = 4"
| "json_bytes (JBool b) = (if b then 4 else 5)"
| "json_bytes (JNum n) = number_bytes n"
| "json_bytes (JStr s) = quoted_bytes s"
| "json_bytes (JArr vs) = 2 + joined_bytes (map json_bytes vs)"
| "json_bytes (JObj kvs) =
     2 + joined_bytes (map (\<lambda>kv. quoted_bytes (fst kv) + 1 + json_bytes (snd kv)) kvs)"

text \<open>\<open>item ? Buffer.byteLength(JSON.stringify(item)) : 0\<close>, for a value and for the
  value of a property that may be \<open>undefined\<close>.\<close>

definition item_bytes :: "json \<Rightarrow> nat" where
  "item_bytes item = (if json_truthy item then json_bytes item else 0)"

definition property_bytes :: "json option \<Rightarrow> nat" where
  "property_bytes v = (case v of None \<Rightarrow> 0 | Some item \<Rightarrow> item_bytes item)"

text \<open>Reading a property. Only objects have the properties the code reads; any other
  value gives \<open>undefined\<close>.\<close>

fun get_property :: "json \<Rightarrow> string \<Rightarrow> json option" where
  "get_property (JObj kvs) k = map_of kvs k"
| "get_property v k = None"

subsection \<open>The largest entity, raw data entry and raw data item\<close>

text \<open>
  The loop shared by \<open>getLargestEntityFromBatch\<close> and
  \<open>getLargestRawDataEntryFromEntity\<close>: the first item whose size is above every size
  seen before it, and above zero. The item is given by its position, since the caller
  changes the batch through it.
\<close>

fun largest_from :: "json list \<Rightarrow> nat \<Rightarrow> nat option \<times> nat \<Rightarrow> nat option \<times> nat" where
  "largest_from [] i largest = largest"
| "largest_from (item # rest) i (largestItem, largestItemSize) =
     (if item_bytes item > largestItemSize
      then largest_from rest (Suc i) (Some i, item_bytes item)
      else largest_from rest (Suc i) (largestItem, largestItemSize))"

definition getLargestEntityFromBatch :: "json list \<Rightarrow> nat option" where
  "getLargestEntityFromBatch data = fst (largest_from data 0 (None, 0))"

definition getLargestRawDataEntryFromEntity :: "json list \<Rightarrow> nat option" where
  "getLargestRawDataEntryFromEntity data = fst (largest_from data 0 (None, 0))"

text \<open>\<open>getLargestItemKeyAndByteSize\<close>: \<open>for (const item in data)\<close> runs over the keys
  and reads \<open>data[item]\<close>.\<close>

fun largest_key_from ::
    "(string \<Rightarrow> json option) \<Rightarrow> string list \<Rightarrow> string \<times> nat \<Rightarrow> string \<times> nat" where
  "largest_key_from lookup [] largestItem = largestItem"
| "largest_key_from lookup (item # rest) (key, sz) =
     (if property_bytes (lookup item) > sz
      then largest_key_from lookup rest (item, property_bytes (lookup item))
      else largest_key_from lookup rest (key, sz))"

definition getLargestItemKeyAndByteSize :: "(string \<times> json) list \<Rightarrow> string \<times> nat" where
  "getLargestItemKeyAndByteSize data =
     largest_key_from (map_of data) (map fst data) ('''', 0)"

text \<open>The same over an array, whose keys are its indices. An array none of whose
  elements has a positive size gives the key \<open>''\<close>, here \<open>None\<close>.\<close>

definition getLargestItemIndexAndByteSize :: "json list \<Rightarrow> nat option \<times> nat" where
  "getLargestItemIndexAndByteSize data = largest_from data 0 (None, 0)"

subsection \<open>\<open>shrinkRawData\<close>\<close>

definition UPLOAD_SIZE_MAX :: nat where
  "UPLOAD_SIZE_MAX = 6275072"

definition TRUNCATED :: json where
  "TRUNCATED = JStr ''TRUNCATED''"

text \<open>\<open>Buffer.byteLength("'TRUNCATED'")\<close>: nine letters and two quotes.\<close>

definition sizeOfTruncated :: nat where
  "sizeOfTruncated = length ''_TRUNCATED_''"

definition INTEGRATION_UPLOAD_FAILED :: error where
  "INTEGRATION_UPLOAD_FAILED =
     Error (Some ''INTEGRATION_UPLOAD_FAILED'') False
       ''Failed to upload integration data because payload is too large and cannot shrink''
       None None"

text \<open>\<open>object[key] = value\<close>: the value of a property that is present is replaced
  where it stands, a new property comes last.\<close>

fun set_first :: "string \<Rightarrow> json \<Rightarrow> (string \<times> json) list \<Rightarrow> (string \<times> json) list" where
  "set_first k v [] = [(k, v)]"
| "set_first k v (p # ps) = (if fst p = k then (k, v) # ps else p # set_first k v ps)"

text \<open>The object with one property changed. The rounds of \<open>shrinkRawData\<close> change
  a property only where they have read it, which is in an object.\<close>

fun set_property :: "json \<Rightarrow> string \<Rightarrow> json \<Rightarrow> json" where
  "set_property (JObj kvs) k v = JObj (set_first k v kvs)"
| "set_property other k v = other"

text \<open>
  \<open>largestRawDataEntry.rawData[largestItemLookup.key] = 'TRUNCATED'\<close> on the value of
  \<open>rawData\<close>, with the size found for the key. An object or an array is changed in
  place. On an array without an element of positive size the key is \<open>''\<close>, which
  becomes a property the serialization leaves out. Any other value is a primitive or
  is missing, and the assignment throws in strict mode.
\<close>

definition truncate_largest_item :: "json option \<Rightarrow> error + json \<times> nat" where
  "truncate_largest_item rawData =
     (case rawData of
        Some (JObj kvs) \<Rightarrow>
          (let (key, sz) = getLargestItemKeyAndByteSize kvs
           in Inr (JObj (set_first key TRUNCATED kvs), sz))
      | Some (JArr vs) \<Rightarrow>
          (case getLargestItemIndexAndByteSize vs of
             (Some i, sz) \<Rightarrow> Inr (JArr (vs[i := TRUNCATED]), sz)
           | (None, sz) \<Rightarrow> Inr (JArr vs, sz))
      | _ \<Rightarrow> Inl (TypeError ''Cannot set properties''))"

text \<open>
  One round of the loop of \<open>shrinkRawData\<close>: the batch after the round and the size of
  the item that was truncated, or the error thrown. \<open>_rawData\<close> has to be truthy. An
  array with no entry of positive size leaves \<open>largestRawDataEntry\<close> undefined, and
  reading its \<open>rawData\<close> is a \<open>TypeError\<close>. A string that is not empty is iterated
  by its characters, which have no \<open>rawData\<close>, so the assignment is a \<open>TypeError\<close>;
  any other truthy value is not iterable. The batch is a value here: no two places of
  it share an object.
\<close>

definition shrink_round :: "json list \<Rightarrow> error + json list \<times> nat" where
  "shrink_round data =
     (case getLargestEntityFromBatch data of
        None \<Rightarrow> Inl INTEGRATION_UPLOAD_FAILED
      | Some i \<Rightarrow>
          (case get_property (data ! i) ''_rawData'' of
             None \<Rightarrow> Inl INTEGRATION_UPLOAD_FAILED
           | Some rawDataEntries \<Rightarrow>
               if \<not> json_truthy rawDataEntries then Inl INTEGRATION_UPLOAD_FAILED
               else
                 (case rawDataEntries of
                    JArr entries \<Rightarrow>
                      (case getLargestRawDataEntryFromEntity entries of
                         None \<Rightarrow> Inl (TypeError ''Cannot read properties of undefined'')
                       | Some j \<Rightarrow>
                           (case truncate_largest_item (get_property (entries ! j) ''rawData'') of
                              Inl e \<Rightarrow> Inl e
                            | Inr (rawData, sz) \<Rightarrow>
                                Inr (data[i := set_property (data ! i) ''_rawData''
                                       (JArr (entries[j := set_property (entries ! j) ''rawData''
                                                             rawData]))],
                                     sz)))
                  | JStr s \<Rightarrow> Inl (TypeError ''Cannot set properties'')
                  | _ \<Rightarrow> Inl (TypeError ''data is not iterable''))))"

record ShrinkRawDataResults =
  initialSize :: nat
  totalSize :: int
  itemsRemoved :: nat

text \<open>
  The \<open>while\<close> loop. It need not end: the result is \<open>None\<close> when it does not.
  \<open>totalSize\<close> is an integer, since the subtraction can take it below zero. The time
  the run took is left out of the result.
\<close>

partial_function (option) shrink_loop ::
    "nat \<Rightarrow> nat \<Rightarrow> json list \<Rightarrow> int \<Rightarrow> nat \<Rightarrow> (error + json list \<times> ShrinkRawDataResults) option" where
  "shrink_loop maxSize initial data total_size removed =
     (if total_size > int maxSize
      then (case shrink_round data of
              Inl e \<Rightarrow> Some (Inl e)
            | Inr (data', sz) \<Rightarrow>
                shrink_loop maxSize initial data' (total_size - int sz + int sizeOfTruncated)
                  (removed + 1))
      else Some (Inr (data, \<lparr>initialSize = initial, totalSize = total_size, itemsRemoved = removed\<rparr>)))"

declare shrink_loop.simps [code]

definition shrinkRawData ::
    "json list \<Rightarrow> nat \<Rightarrow> (error + json list \<times> ShrinkRawDataResults) option" where
  "shrinkRawData data maxSize =
     shrink_loop maxSize (json_bytes (JArr data)) data (int (json_bytes (JArr data))) 0"


subsection \<open>Uploading one batch\<close>

definition isRequestUploadTooLargeError :: "error \<Rightarrow> bool" where
  "isRequestUploadTooLargeError err =
     (err_code err = Some ''RequestEntityTooLargeException''
      \<or> map_option response_status (err_response err) = Some 413)"

text \<open>\<open>err.response?.data?.error\<close>.\<close>

definition getSystemErrorResponseData :: "error \<Rightarrow> SystemErrorResponseData option" where
  "getSystemErrorResponseData err =
     (case err_response err of None \<Rightarrow> None | Some r \<Rightarrow> response_data_error r)"

definition INTEGRATION_UPLOAD_AFTER_JOB_ENDED :: "error \<Rightarrow> error" where
  "INTEGRATION_UPLOAD_AFTER_JOB_ENDED err =
     Error (Some ''INTEGRATION_UPLOAD_AFTER_JOB_ENDED'') True
       ''Failed to upload integration data because job has already ended''
       None (Some err)"

text \<open>The context \<open>retry\<close> hands to the attempt and to \<open>handleError\<close>.\<close>

record AttemptContext =
  attemptNum :: nat
  attemptsRemaining :: nat

datatype upload_log =
    LogUploading nat nat
  | LogAttemptingShrink
  | LogShrinkResult ShrinkRawDataResults
  | LogWillRetry nat

text \<open>
  \<open>handleUploadDataChunkError\<close>: what it throws, or the batch as it leaves it, with
  what it has logged. There is no result when \<open>shrinkRawData\<close> does not return.
\<close>

definition handleUploadDataChunkError ::
    "error \<Rightarrow> AttemptContext \<Rightarrow> json list \<Rightarrow> ((error + json list) \<times> upload_log list) option" where
  "handleUploadDataChunkError err attemptContext batch =
     (let willRetry =
            (if attemptsRemaining attemptContext \<noteq> 0 \<and> err_code err \<noteq> Some ''CredentialsError''
             then [LogWillRetry (attemptNum attemptContext)] else [])
      in if isRequestUploadTooLargeError err
         then (case shrinkRawData batch UPLOAD_SIZE_MAX of
                 None \<Rightarrow> None
               | Some (Inl e) \<Rightarrow> Some (Inl e, [LogAttemptingShrink])
               | Some (Inr (shrunk, shrinkResults)) \<Rightarrow>
                   Some (Inr shrunk,
                         [LogAttemptingShrink, LogShrinkResult shrinkResults] @ willRetry))
         else if map_option sys_code (getSystemErrorResponseData err)
                   = Some ''JOB_NOT_AWAITING_UPLOADS''
         then Some (Inl (INTEGRATION_UPLOAD_AFTER_JOB_ENDED err), [])
         else Some (Inr batch, willRetry))"

text \<open>
  The options \<open>uploadDataChunk\<close> gives to \<open>retry\<close> of \<open>@lifeomic/attempt\<close>, and the
  delay the library computes from them before the attempt numbered \<open>attemptNum\<close>:
  \<open>Math.round(delay * Math.pow(factor, attemptNum - 1))\<close>. There is no delay before
  the first attempt, no timeout, no jitter and no upper bound of the delay.
\<close>

definition maxAttempts :: nat where
  "maxAttempts = 5"

definition delay :: rat where
  "delay = 200"

definition factor :: rat where
  "factor = 105 / 100"

definition calculateDelay :: "nat \<Rightarrow> nat" where
  "calculateDelay n = nat (round (delay * factor ^ (n - 1)))"

text \<open>
  One run of \<open>uploadDataChunk\<close>: the bodies posted, in order, the delays slept between
  them, the log and the error the run rejects with.
\<close>

record UploadRun =
  posted :: "json list list"
  slept :: "nat list"
  upload_logs :: "upload_log list"
  rejected :: "error option"

definition preceded :: "json list \<Rightarrow> nat list \<Rightarrow> upload_log list \<Rightarrow> UploadRun \<Rightarrow> UploadRun" where
  "preceded body delays logs run =
     run\<lparr>posted := body # posted run, slept := delays @ slept run,
         upload_logs := logs @ upload_logs run\<rparr>"

text \<open>
  \<open>makeAttempt\<close> of the library with the attempt function and \<open>handleError\<close> of
  \<open>uploadDataChunk\<close> in place. \<open>post n body\<close> is the error with which the server
  answers the attempt numbered \<open>n\<close>, if it does. The attempts remaining are counted
  down before the attempt; an error that \<open>handleError\<close> throws ends the run, as does
  the error of the attempt when none remain.
\<close>

function makeAttempt ::
    "(nat \<Rightarrow> json list \<Rightarrow> error option) \<Rightarrow> nat \<Rightarrow> nat \<Rightarrow> json list \<Rightarrow> UploadRun option" where
  "makeAttempt post n remaining batch =
     (case post n batch of
        None \<Rightarrow>
          Some \<lparr>posted = [batch], slept = [], upload_logs = [LogUploading n (length batch)],
                rejected = None\<rparr>
      | Some err \<Rightarrow>
          (case handleUploadDataChunkError err
                  \<lparr>attemptNum = n, attemptsRemaining = remaining - 1\<rparr> batch of
             None \<Rightarrow> None
           | Some (Inl thrown, logs) \<Rightarrow>
               Some \<lparr>posted = [batch], slept = [],
                     upload_logs = LogUploading n (length batch) # logs,
                     rejected = Some thrown\<rparr>
           | Some (Inr batch', logs) \<Rightarrow>
               if remaining - 1 = 0
               then Some \<lparr>posted = [batch], slept = [],
                          upload_logs = LogUploading n (length batch) # logs,
                          rejected = Some err\<rparr>
               else map_option
                      (preceded batch [calculateDelay (n + 1)]
                         (LogUploading n (length batch) # logs))
                      (makeAttempt post (n + 1) (remaining - 1) batch')))"
  by pat_completeness auto
termination
  by (relation "measure (\<lambda>(post, n, remaining, batch). remaining)") auto

definition uploadDataChunk :: "(nat \<Rightarrow> json list \<Rightarrow> error option) \<Rightarrow> json list \<Rightarrow> UploadRun option" where
  "uploadDataChunk post batch = makeAttempt post 0 maxAttempts batch"

subsection \<open>The synchronization job\<close>











definition stuck :: "nat \<Rightarrow> json list \<Rightarrow> int \<Rightarrow> bool" where
  "stuck maxSize data total_size =
     (total_size > int maxSize \<and> shrink_round data = Inr (data, 11))"

text \<open>The bodies of consecutive attempts: each attempt but the last has failed, and the
  next one posts the batch as \<open>shrinkRawData\<close> has left it when the error said the
  request was too large, the batch as it was otherwise.\<close>

fun retried :: "(nat \<Rightarrow> json list \<Rightarrow> error option) \<Rightarrow> nat \<Rightarrow> json list list \<Rightarrow> bool" where
  "retried post n (body # next_body # rest) =
     ((case post n body of
         None \<Rightarrow> False
       | Some err \<Rightarrow>
           if isRequestUploadTooLargeError err
           then map_option (map_sum id fst) (shrinkRawData body UPLOAD_SIZE_MAX)
                  = Some (Inr next_body)
           else next_body = body)
      \<and> retried post (n + 1) (next_body # rest))"
| "retried post n bodies = True"


section \<open>A small integration, used to run the definitions\<close>

text \<open>Four steps in a diamond: \<open>b\<close> and \<open>c\<close> depend on \<open>a\<close>, \<open>d\<close> on both.\<close>

definition diamond_step :: "string \<Rightarrow> string list \<Rightarrow> Step" where
  "diamond_step i ds =
     \<lparr>step_id = i, step_name = i, dependsOn = Some ds,
      entities = [\<lparr>type_name = ''acme_user'', partial = False\<rparr>],
      relationships = [], mappedRelationships = None\<rparr>"

definition diamond :: "Step DepGraph" where
  "diamond =
     \<lparr>nodes = [(''a'', diamond_step ''a'' []), (''b'', diamond_step ''b'' [''a'']),
               (''c'', diamond_step ''c'' [''a'']), (''d'', diamond_step ''d'' [''b'', ''c''])],
      outgoingEdges = [(''a'', []), (''b'', [''a'']), (''c'', [''a'']), (''d'', [''b'', ''c''])],
      incomingEdges = [(''a'', [''b'', ''c'']), (''b'', [''d'']), (''c'', [''d'']), (''d'', [])]\<rparr>"

definition enabled_state :: StepStartState where
  "enabled_state = \<lparr>disabled = Some False, stepCachePath = None\<rparr>"

definition disabled_state :: StepStartState where
  "disabled_state = \<lparr>disabled = Some True, stepCachePath = None\<rparr>"

definition cached_state :: StepStartState where
  "cached_state = \<lparr>disabled = Some False, stepCachePath = Some ''/cache/a''\<rparr>"

definition all_enabled :: StepStartStates where
  "all_enabled = [''a'' \<mapsto> enabled_state, ''b'' \<mapsto> enabled_state,
                  ''c'' \<mapsto> enabled_state, ''d'' \<mapsto> enabled_state]"

definition no_files :: GraphFileIteration where
  "no_files = \<lparr>files = [], iterationError = None\<rparr>"

text \<open>A step execution in which nothing throws and nothing is cached.\<close>

definition quiet_run :: StepRun where
  "quiet_run =
     \<lparr>cacheEntities = no_files, cacheRelationships = no_files, executionHandler = None,
      encounteredTypesForStep = [''acme_user'', ''acme_group''], flush = None,
      waitUntilUploadsComplete = Some None\<rparr>"

definition some_error :: error where
  "some_error = Error (Some ''ECONNRESET'') False ''socket hang up'' None None"

definition result_of :: "string \<Rightarrow> StepResultStatus \<Rightarrow> IntegrationStepResult" where
  "result_of i st =
     \<lparr>result_id = i, result_name = i, result_dependsOn = None, declaredTypes = [],
      partialTypes = [], encounteredTypes = [], status = st\<rparr>"

text \<open>Step \<open>a\<close> has a cache directory with three entities and two relationships.\<close>

definition a_cached :: StepStartStates where
  "a_cached = all_enabled(''a'' \<mapsto> cached_state)"

definition cached_run :: StepRun where
  "cached_run =
     quiet_run\<lparr>cacheEntities := \<lparr>files = [(3, None)], iterationError = None\<rparr>,
               cacheRelationships := \<lparr>files = [(2, None)], iterationError = None\<rparr>\<rparr>"

text \<open>What a finished run shows: the promise, the pause flag, the status of every
  result in the order of the map, and the tasks still in the queue.\<close>

definition observe ::
    "(error + sched_state) option
      \<Rightarrow> ((error + StepResultStatus list) option \<times> bool \<times> (string \<times> StepResultStatus) list
           \<times> string list) option" where
  "observe r =
     (case r of
        Some (Inr s) \<Rightarrow>
          Some (map_option (map_sum (\<lambda>e. e) (map status)) (settled s), isPaused s,
                map (\<lambda>(k, res). (k, status res)) (stepResultsMap s), map fst (pendingTasks s))
      | _ \<Rightarrow> None)"

definition b_disabled :: StepStartStates where
  "b_disabled = all_enabled(''b'' \<mapsto> disabled_state)"

text \<open>A batch of one entity whose raw data holds a long string and a short one.\<close>

definition big_entity :: "nat \<Rightarrow> json" where
  "big_entity n =
     JObj [(''_key'', JStr ''user:1''), (''_type'', JStr ''acme_user''),
           (''_rawData'',
            JArr [JObj [(''name'', JStr ''default''),
                        (''rawData'', JObj [(''big'', JStr (replicate n CHR ''x'')),
                                            (''small'', JStr ''ok'')])]])]"


text \<open>The same entity after its long string has been truncated.\<close>

definition truncated_entity :: json where
  "truncated_entity =
     JObj [(''_key'', JStr ''user:1''), (''_type'', JStr ''acme_user''),
           (''_rawData'',
            JArr [JObj [(''name'', JStr ''default''),
                        (''rawData'', JObj [(''big'', TRUNCATED),
                                            (''small'', JStr ''ok'')])]])]"

text \<open>An entity whose raw data holds nothing of a positive size.\<close>

definition all_falsy_entity :: json where
  "all_falsy_entity =
     JObj [(''_key'', JStr ''user:2''),
           (''_rawData'', JArr [JObj [(''name'', JStr ''default''),
                                      (''rawData'', JObj [(''deleted'', JBool False)])]])]"



definition too_large :: error where
  "too_large =
     Error None False ''Request failed with status code 413'' (Some (Response 413 None)) None"

definition fails_first :: "error \<Rightarrow> nat \<Rightarrow> json list \<Rightarrow> error option" where
  "fails_first err n body = (if n = 0 then Some err else None)"





lemma edge_relI: "map_of edges a = Some cs \<Longrightarrow> b \<in> set cs \<Longrightarrow> (a, b) \<in> edge_rel edges"
  by (auto simp: edge_rel_def)

lemma dfs_extends:
  "dfs_visit E path v vis = Inr vis' \<Longrightarrow>
     \<exists>new. vis' = vis @ new \<and> set new \<inter> set path = {} \<and> set new \<inter> set vis = {}
        \<and> distinct new \<and> v \<in> set vis' \<and> set new \<subseteq> (edge_rel E)\<^sup>* `` {v}"
  "dfs_each E path cs vis = Inr vis' \<Longrightarrow>
     \<exists>new. vis' = vis @ new \<and> set new \<inter> set path = {} \<and> set new \<inter> set vis = {}
        \<and> distinct new \<and> set cs \<subseteq> set vis' \<and> set new \<subseteq> (edge_rel E)\<^sup>* `` set cs"
proof (induction E path v vis and E path cs vis arbitrary: vis' and vis' rule: dfs_visit_dfs_each.induct)
  case (1 edges path v vis)
  show ?case
  proof (cases "v \<in> set vis")
    case True
    with "1.prems" have "vis' = vis" by simp
    with True show ?thesis by auto
  next
    case False
    with "1.prems" have np: "v \<notin> set path" by (auto split: if_splits)
    from "1.prems" False np obtain cs where cs: "map_of edges v = Some cs"
      by (auto split: option.splits)
    from "1.prems" False np cs obtain vis1 where
      v1: "dfs_each edges (v # path) cs vis = Inr vis1" and v': "vis' = vis1 @ [v]"
      by (auto split: sum.splits)
    from "1.IH"[OF False np cs v1] obtain new where new:
      "vis1 = vis @ new" "set new \<inter> set (v # path) = {}" "set new \<inter> set vis = {}"
      "distinct new" "set cs \<subseteq> set vis1" "set new \<subseteq> (edge_rel edges)\<^sup>* `` set cs"
      by blast
    have "set cs \<subseteq> edge_rel edges `` {v}" using cs by (auto intro: edge_relI)
    then have "(edge_rel edges)\<^sup>* `` set cs \<subseteq> (edge_rel edges)\<^sup>* `` {v}"
      by (auto intro: converse_rtrancl_into_rtrancl)
    with new False np v' have
      "vis' = vis @ (new @ [v]) \<and> set (new @ [v]) \<inter> set path = {} \<and> set (new @ [v]) \<inter> set vis = {}
        \<and> distinct (new @ [v]) \<and> v \<in> set vis' \<and> set (new @ [v]) \<subseteq> (edge_rel edges)\<^sup>* `` {v}"
      by auto
    then show ?thesis by blast
  qed
next
  case (2 edges path vis)
  then show ?case by simp
next
  case (3 edges path c cs vis)
  from "3.prems" obtain vis1 where
    v1: "dfs_visit edges path c vis = Inr vis1" and v2: "dfs_each edges path cs vis1 = Inr vis'"
    by (auto split: sum.splits)
  from "3.IH"(1)[OF v1] obtain new1 where n1:
    "vis1 = vis @ new1" "set new1 \<inter> set path = {}" "set new1 \<inter> set vis = {}"
    "distinct new1" "c \<in> set vis1" "set new1 \<subseteq> (edge_rel edges)\<^sup>* `` {c}"
    by blast
  from "3.IH"(2)[OF v1 v2] obtain new2 where n2:
    "vis' = vis1 @ new2" "set new2 \<inter> set path = {}" "set new2 \<inter> set vis1 = {}"
    "distinct new2" "set cs \<subseteq> set vis'" "set new2 \<subseteq> (edge_rel edges)\<^sup>* `` set cs"
    by blast
  from n1 n2 have
    "vis' = vis @ (new1 @ new2) \<and> set (new1 @ new2) \<inter> set path = {} \<and> set (new1 @ new2) \<inter> set vis = {}
      \<and> distinct (new1 @ new2) \<and> set (c # cs) \<subseteq> set vis'
      \<and> set (new1 @ new2) \<subseteq> (edge_rel edges)\<^sup>* `` set (c # cs)"
    by auto
  then show ?case by blast
qed

lemma postorder_Nil: "postorder E []"
  by (simp add: postorder_def)

lemma postorder_snoc:
  "postorder E (vis @ [v]) = (postorder E vis \<and> (\<exists>cs. map_of E v = Some cs \<and> set cs \<subseteq> set vis))"
  unfolding postorder_def
proof (intro iffI conjI allI impI)
  fix i
  assume a: "\<forall>i<length (vis @ [v]). \<exists>cs. map_of E ((vis @ [v]) ! i) = Some cs \<and> set cs \<subseteq> set (take i (vis @ [v]))"
    and i: "i < length vis"
  from a i have "\<exists>cs. map_of E ((vis @ [v]) ! i) = Some cs \<and> set cs \<subseteq> set (take i (vis @ [v]))"
    by simp
  with i show "\<exists>cs. map_of E (vis ! i) = Some cs \<and> set cs \<subseteq> set (take i vis)"
    by (simp add: nth_append)
next
  assume a: "\<forall>i<length (vis @ [v]). \<exists>cs. map_of E ((vis @ [v]) ! i) = Some cs \<and> set cs \<subseteq> set (take i (vis @ [v]))"
  then have "\<exists>cs. map_of E ((vis @ [v]) ! length vis) = Some cs \<and> set cs \<subseteq> set (take (length vis) (vis @ [v]))"
    by (metis length_append_singleton lessI)
  then show "\<exists>cs. map_of E v = Some cs \<and> set cs \<subseteq> set vis" by simp
next
  fix i
  assume a: "(\<forall>i<length vis. \<exists>cs. map_of E (vis ! i) = Some cs \<and> set cs \<subseteq> set (take i vis))
       \<and> (\<exists>cs. map_of E v = Some cs \<and> set cs \<subseteq> set vis)"
    and i: "i < length (vis @ [v])"
  show "\<exists>cs. map_of E ((vis @ [v]) ! i) = Some cs \<and> set cs \<subseteq> set (take i (vis @ [v]))"
  proof (cases "i < length vis")
    case True
    with a show ?thesis by (simp add: nth_append)
  next
    case False
    with i have "i = length vis" by simp
    with a show ?thesis by simp
  qed
qed

lemma postorder_closed:
  assumes "postorder E vis" and "x \<in> set vis" and "(x, y) \<in> edge_rel E"
  shows "y \<in> set vis"
proof -
  from assms(2) obtain i where i: "i < length vis" "vis ! i = x"
    by (auto simp: in_set_conv_nth)
  with assms(1) obtain cs where cs: "map_of E x = Some cs" "set cs \<subseteq> set (take i vis)"
    by (auto simp: postorder_def)
  from assms(3) cs(1) have "y \<in> set cs" by (auto simp: edge_rel_def)
  with cs(2) show ?thesis by (auto dest: in_set_takeD)
qed

lemma postorder_rtrancl_closed:
  assumes "(x, y) \<in> (edge_rel E)\<^sup>*" and "postorder E vis" and "x \<in> set vis"
  shows "y \<in> set vis"
  using assms by (induction rule: rtrancl_induct) (auto intro: postorder_closed)

lemma postorder_has_entry:
  "postorder E vis \<Longrightarrow> x \<in> set vis \<Longrightarrow> \<exists>cs. map_of E x = Some cs"
  by (auto simp: postorder_def in_set_conv_nth)

lemma dfs_postorder:
  "dfs_visit E path v vis = Inr vis' \<Longrightarrow> postorder E vis \<Longrightarrow> postorder E vis'"
  "dfs_each E path cs vis = Inr vis' \<Longrightarrow> postorder E vis \<Longrightarrow> postorder E vis'"
proof (induction E path v vis and E path cs vis arbitrary: vis' and vis' rule: dfs_visit_dfs_each.induct)
  case (1 edges path v vis)
  show ?case
  proof (cases "v \<in> set vis")
    case True
    with "1.prems" show ?thesis by simp
  next
    case False
    with "1.prems" have np: "v \<notin> set path" by (auto split: if_splits)
    from "1.prems" False np obtain cs where cs: "map_of edges v = Some cs"
      by (auto split: option.splits)
    from "1.prems" False np cs obtain vis1 where
      v1: "dfs_each edges (v # path) cs vis = Inr vis1" and v': "vis' = vis1 @ [v]"
      by (auto split: sum.splits)
    from "1.IH"[OF False np cs v1 "1.prems"(2)] have p1: "postorder edges vis1" .
    from dfs_extends(2)[OF v1] have "set cs \<subseteq> set vis1" by blast
    with p1 cs v' show ?thesis by (simp add: postorder_snoc)
  qed
next
  case (2 edges path vis)
  then show ?case by simp
next
  case (3 edges path c cs vis)
  from "3.prems" obtain vis1 where
    v1: "dfs_visit edges path c vis = Inr vis1" and v2: "dfs_each edges path cs vis1 = Inr vis'"
    by (auto split: sum.splits)
  from "3.IH"(1)[OF v1 "3.prems"(2)] have "postorder edges vis1" .
  from "3.IH"(2)[OF v1 v2 this] show ?case .
qed

lemma postorder_no_cycle:
  "postorder E vis \<Longrightarrow> distinct vis \<Longrightarrow> x \<in> set vis \<Longrightarrow> (x, x) \<notin> (edge_rel E)\<^sup>+"
proof (induction vis arbitrary: x rule: rev_induct)
  case Nil
  then show ?case by simp
next
  case (snoc v vis)
  from snoc.prems(1) have pv: "postorder E vis"
    and cs: "\<exists>cs. map_of E v = Some cs \<and> set cs \<subseteq> set vis"
    by (simp_all add: postorder_snoc)
  from snoc.prems(2) have dv: "distinct vis" and vn: "v \<notin> set vis" by simp_all
  show ?case
  proof (cases "x = v")
    case False
    with snoc.prems(3) have "x \<in> set vis" by simp
    from snoc.IH[OF pv dv this] show ?thesis .
  next
    case True
    show ?thesis
    proof
      assume "(x, x) \<in> (edge_rel E)\<^sup>+"
      with True obtain c where c: "(v, c) \<in> edge_rel E" "(c, v) \<in> (edge_rel E)\<^sup>*"
        by (auto dest: tranclD)
      from c(1) cs have "c \<in> set vis" by (auto simp: edge_rel_def)
      from postorder_rtrancl_closed[OF c(2) pv this] vn show False by simp
    qed
  qed
qed

lemma edge_rel_source: "(a, b) \<in> edge_rel E \<Longrightarrow> a \<in> fst ` set E"
  by (auto simp: edge_rel_def dest!: map_of_SomeD intro: image_eqI[where x="(a, cs)" for cs])

lemma trancl_source: "(a, b) \<in> (edge_rel E)\<^sup>+ \<Longrightarrow> a \<in> fst ` set E"
  by (auto dest!: tranclD intro: edge_rel_source)

lemma postorder_acyclic:
  assumes "postorder E vis" and "distinct vis" and "fst ` set E \<subseteq> set vis"
  shows "acyclic (edge_rel E)"
  unfolding acyclic_def
proof (intro allI notI)
  fix x assume c: "(x, x) \<in> (edge_rel E)\<^sup>+"
  then have "x \<in> set vis" using assms(3) trancl_source by blast
  from postorder_no_cycle[OF assms(1,2) this] c show False by simp
qed

lemma dfs_succeeds:
  assumes ac: "acyclic (edge_rel E)"
    and tg: "\<And>a b. (a, b) \<in> edge_rel E \<Longrightarrow> map_of E b \<noteq> None"
  shows "map_of E v \<noteq> None \<Longrightarrow> (\<And>p. p \<in> set path \<Longrightarrow> (p, v) \<in> (edge_rel E)\<^sup>+)
           \<Longrightarrow> \<exists>vis'. dfs_visit E path v vis = Inr vis'"
    and "(\<And>c. c \<in> set cs \<Longrightarrow> map_of E c \<noteq> None)
           \<Longrightarrow> (\<And>c p. c \<in> set cs \<Longrightarrow> p \<in> set path \<Longrightarrow> (p, c) \<in> (edge_rel E)\<^sup>+)
           \<Longrightarrow> \<exists>vis'. dfs_each E path cs vis = Inr vis'"
  using ac tg
proof (induction E path v vis and E path cs vis rule: dfs_visit_dfs_each.induct)
  case (1 edges path v vis)
  show ?case
  proof (cases "v \<in> set vis")
    case True
    then show ?thesis by simp
  next
    case False
    have np: "v \<notin> set path"
    proof
      assume "v \<in> set path"
      then have "(v, v) \<in> (edge_rel edges)\<^sup>+" by (rule "1.prems"(2))
      with "1.prems"(3) show False by (auto simp: acyclic_def)
    qed
    from "1.prems"(1) obtain cs where cs: "map_of edges v = Some cs" by auto
    have e: "\<And>c. c \<in> set cs \<Longrightarrow> (v, c) \<in> edge_rel edges"
      using cs by (auto intro: edge_relI)
    have "\<exists>vis'. dfs_each edges (v # path) cs vis = Inr vis'"
    proof (rule "1.IH"[OF False np cs _ _ "1.prems"(3)])
      fix c assume "c \<in> set cs"
      then show "map_of edges c \<noteq> None" using e "1.prems"(4) by blast
    next
      fix c p assume c: "c \<in> set cs" and p: "p \<in> set (v # path)"
      show "(p, c) \<in> (edge_rel edges)\<^sup>+"
      proof (cases "p = v")
        case True
        with e[OF c] show ?thesis by auto
      next
        case False
        with p have "p \<in> set path" by simp
        then have "(p, v) \<in> (edge_rel edges)\<^sup>+" by (rule "1.prems"(2))
        with e[OF c] show ?thesis by (meson trancl_into_trancl)
      qed
    next
      fix a b assume "(a, b) \<in> edge_rel edges"
      then show "map_of edges b \<noteq> None" by (rule "1.prems"(4))
    qed
    then obtain vis1 where "dfs_each edges (v # path) cs vis = Inr vis1" by blast
    with False np cs show ?thesis by simp
  qed
next
  case (2 edges path vis)
  show ?case by simp
next
  case (3 edges path c cs vis)
  have "\<exists>vis'. dfs_visit edges path c vis = Inr vis'"
    by (rule "3.IH"(1)) (use "3.prems" in auto)
  then obtain vis1 where v1: "dfs_visit edges path c vis = Inr vis1" by blast
  have "\<exists>vis'. dfs_each edges path cs vis1 = Inr vis'"
    by (rule "3.IH"(2)[OF v1]) (use "3.prems" in auto)
  with v1 show ?case by simp
qed

lemma map_of_keys: "(map_of E k \<noteq> None) = (k \<in> fst ` set E)"
  by (simp add: map_of_eq_None_iff)

lemma wf_graph_out_keys: "wf_graph g \<Longrightarrow> fst ` set (outgoingEdges g) = names g"
  unfolding wf_graph_def names_def by (metis set_map)

lemma wf_graph_in_keys: "wf_graph g \<Longrightarrow> fst ` set (incomingEdges g) = names g"
  unfolding wf_graph_def names_def by (metis set_map)

lemma edges_ok_preds:
  assumes "edges_ok E E'" and "distinct (map fst E)" and "(a, b) \<in> edge_rel E"
  shows "(b, a) \<in> edge_rel E'"
proof -
  from assms(3) obtain cs where cs: "map_of E a = Some cs" "b \<in> set cs"
    by (auto simp: edge_rel_def)
  then have "(a, cs) \<in> set E" by (auto dest: map_of_SomeD)
  with assms(1) cs(2) have "case map_of E' b of None \<Rightarrow> False | Some preds \<Rightarrow> a \<in> set preds"
    by (auto simp: edges_ok_def)
  then show ?thesis by (auto simp: edge_rel_def split: option.splits)
qed

lemma edges_ok_distinct:
  "edges_ok E E' \<Longrightarrow> map_of E a = Some cs \<Longrightarrow> distinct cs"
  by (auto simp: edges_ok_def dest!: map_of_SomeD)

lemma incoming_is_converse:
  assumes "wf_graph g"
  shows "edge_rel (incomingEdges g) = (deps_rel g)\<inverse>"
proof -
  from assms have d: "distinct (map fst (outgoingEdges g))" "distinct (map fst (incomingEdges g))"
    and o: "edges_ok (outgoingEdges g) (incomingEdges g)"
    and i: "edges_ok (incomingEdges g) (outgoingEdges g)"
    by (simp_all add: wf_graph_def)
  show ?thesis
    unfolding deps_rel_def
    using edges_ok_preds[OF o d(1)] edges_ok_preds[OF i d(2)] by auto
qed

lemma deps_rel_names:
  assumes "wf_graph g" and "(a, b) \<in> deps_rel g"
  shows "a \<in> names g" and "b \<in> names g"
proof -
  from assms(2) show "a \<in> names g"
    unfolding deps_rel_def using edge_rel_source wf_graph_out_keys[OF assms(1)] by blast
  from assms have "(b, a) \<in> edge_rel (incomingEdges g)"
    by (simp add: incoming_is_converse)
  then show "b \<in> names g"
    using edge_rel_source wf_graph_in_keys[OF assms(1)] by blast
qed

lemma deps_rel_trancl_names:
  assumes "wf_graph g" and "(a, b) \<in> (deps_rel g)\<^sup>+"
  shows "a \<in> names g" and "b \<in> names g"
  using assms(2) by (induction rule: trancl_induct) (auto dest: deps_rel_names[OF assms(1)])

lemma finite_deps_rel: "wf_graph g \<Longrightarrow> finite (deps_rel g)"
proof (rule finite_subset)
  assume "wf_graph g"
  then show "deps_rel g \<subseteq> names g \<times> names g" by (auto dest: deps_rel_names)
  show "finite (names g \<times> names g)" by (simp add: names_def)
qed

lemma out_entry: "wf_graph g \<Longrightarrow> n \<in> names g \<Longrightarrow> \<exists>es. map_of (outgoingEdges g) n = Some es"
  using wf_graph_out_keys[of g] map_of_keys[of "outgoingEdges g" n] by auto

lemma in_entry: "wf_graph g \<Longrightarrow> n \<in> names g \<Longrightarrow> \<exists>es. map_of (incomingEdges g) n = Some es"
  using wf_graph_in_keys[of g] map_of_keys[of "incomingEdges g" n] by auto

lemma hasNode_names: "hasNode g n = (n \<in> names g)"
  by (simp only: hasNode_def names_def map_of_keys)

lemma dfs_outgoing_succeeds:
  assumes "wf_graph g" and "acyclic (deps_rel g)" and "set cs \<subseteq> names g"
  shows "\<exists>vis'. dfs_each (outgoingEdges g) [] cs vis = Inr vis'"
proof (rule dfs_succeeds(2))
  show "acyclic (edge_rel (outgoingEdges g))" using assms(2) by (simp add: deps_rel_def)
  fix a b assume "(a, b) \<in> edge_rel (outgoingEdges g)"
  then have "b \<in> names g" using deps_rel_names(2)[OF assms(1)] by (simp add: deps_rel_def)
  then show "map_of (outgoingEdges g) b \<noteq> None" using out_entry[OF assms(1)] by auto
next
  fix c assume "c \<in> set cs"
  with assms(3) show "map_of (outgoingEdges g) c \<noteq> None" using out_entry[OF assms(1)] by auto
qed simp

lemma dfs_incoming_succeeds:
  assumes "wf_graph g" and "acyclic (deps_rel g)" and "set cs \<subseteq> names g"
  shows "\<exists>vis'. dfs_each (incomingEdges g) [] cs vis = Inr vis'"
proof (rule dfs_succeeds(2))
  show "acyclic (edge_rel (incomingEdges g))"
    using assms(1,2) by (simp add: incoming_is_converse)
  fix a b assume "(a, b) \<in> edge_rel (incomingEdges g)"
  then have "(b, a) \<in> deps_rel g" using assms(1) by (simp add: incoming_is_converse)
  then have "b \<in> names g" by (rule deps_rel_names(1)[OF assms(1)])
  then show "map_of (incomingEdges g) b \<noteq> None" using in_entry[OF assms(1)] by auto
next
  fix c assume "c \<in> set cs"
  with assms(3) show "map_of (incomingEdges g) c \<noteq> None" using in_entry[OF assms(1)] by auto
qed simp

lemma dfs_visit_as_each: "dfs_visit E path v vis = dfs_each E path [v] vis"
  by (simp split: sum.splits)

text \<open>What a search from the empty visited list returns.\<close>

lemma dfs_each_from_Nil:
  assumes "dfs_each E [] cs [] = Inr vis"
  shows "distinct vis" and "postorder E vis" and "set vis = (edge_rel E)\<^sup>* `` set cs"
proof -
  from dfs_extends(2)[OF assms] have d: "distinct vis" and c: "set cs \<subseteq> set vis"
    and r: "set vis \<subseteq> (edge_rel E)\<^sup>* `` set cs"
    by auto
  show "distinct vis" by (rule d)
  show p: "postorder E vis" by (rule dfs_postorder(2)[OF assms postorder_Nil])
  show "set vis = (edge_rel E)\<^sup>* `` set cs"
  proof
    show "set vis \<subseteq> (edge_rel E)\<^sup>* `` set cs" by (rule r)
    show "(edge_rel E)\<^sup>* `` set cs \<subseteq> set vis"
      using c postorder_rtrancl_closed[OF _ p] by blast
  qed
qed

lemma dependenciesOf_set:
  assumes "dependenciesOf g n = Inr ds" and "acyclic (deps_rel g)"
  shows "set ds = (deps_rel g)\<^sup>+ `` {n}" and "distinct ds"
proof -
  from assms(1) obtain vis where v: "dfs_visit (outgoingEdges g) [] n [] = Inr vis"
    and ds: "ds = remove1 n vis"
    by (auto simp: dependenciesOf_def split: if_splits sum.splits)
  from v have e: "dfs_each (outgoingEdges g) [] [n] [] = Inr vis"
    by (simp only: dfs_visit_as_each)
  from dfs_each_from_Nil[OF e] have d: "distinct vis"
    and s: "set vis = (deps_rel g)\<^sup>* `` {n}"
    by (simp_all add: deps_rel_def)
  from d ds show "distinct ds" by simp
  from assms(2) have "(n, n) \<notin> (deps_rel g)\<^sup>+" by (simp add: acyclic_def)
  then have "(deps_rel g)\<^sup>* `` {n} - {n} = (deps_rel g)\<^sup>+ `` {n}"
    by (auto simp: rtrancl_eq_or_trancl)
  with d ds s show "set ds = (deps_rel g)\<^sup>+ `` {n}" by simp
qed

lemma dependenciesOf_succeeds:
  assumes "wf_graph g" and "acyclic (deps_rel g)" and "n \<in> names g"
  shows "\<exists>ds. dependenciesOf g n = Inr ds"
proof -
  from dfs_outgoing_succeeds[OF assms(1,2), of "[n]" "[]"] assms(3)
  obtain vis where "dfs_each (outgoingEdges g) [] [n] [] = Inr vis" by auto
  then have "dfs_visit (outgoingEdges g) [] n [] = Inr vis" by (simp only: dfs_visit_as_each)
  with assms(3) show ?thesis by (simp add: dependenciesOf_def hasNode_names)
qed

lemma dependantsOf_succeeds:
  assumes "wf_graph g" and "acyclic (deps_rel g)" and "n \<in> names g"
  shows "\<exists>ds. dependantsOf g n = Inr ds"
proof -
  from dfs_incoming_succeeds[OF assms(1,2), of "[n]" "[]"] assms(3)
  obtain vis where "dfs_each (incomingEdges g) [] [n] [] = Inr vis" by auto
  then have "dfs_visit (incomingEdges g) [] n [] = Inr vis" by (simp only: dfs_visit_as_each)
  with assms(3) show ?thesis by (simp add: dependantsOf_def hasNode_names)
qed

lemma reachable_from_root:
  assumes w: "wf_graph g" and a: "acyclic (deps_rel g)"
  shows "n \<in> names g \<Longrightarrow>
     \<exists>r \<in> names g. map_of (incomingEdges g) r = Some [] \<and> (r, n) \<in> (deps_rel g)\<^sup>*"
proof (induction n rule: wf_induct_rule[OF finite_acyclic_wf[OF finite_deps_rel[OF w] a]])
  case (1 n)
  from in_entry[OF w "1.prems"] obtain preds where b: "map_of (incomingEdges g) n = Some preds"
    by blast
  show ?case
  proof (cases preds)
    case Nil
    with b "1.prems" show ?thesis by blast
  next
    case (Cons p ps)
    with b have "(n, p) \<in> edge_rel (incomingEdges g)" by (auto intro: edge_relI)
    then have pn: "(p, n) \<in> deps_rel g" using w by (simp add: incoming_is_converse)
    from "1.IH"[OF pn deps_rel_names(1)[OF w pn]] obtain r where
      "r \<in> names g" "map_of (incomingEdges g) r = Some []" "(r, p) \<in> (deps_rel g)\<^sup>*"
      by blast
    with pn show ?thesis by (meson rtrancl_into_rtrancl)
  qed
qed

lemma overallOrder_cases:
  assumes "overallOrder g b = Inr order" and "nodes g \<noteq> []"
  obtains chk vis where
    "dfs_each (outgoingEdges g) [] (map fst (nodes g)) [] = Inr chk"
    "dfs_each (outgoingEdges g) []
       (filter (\<lambda>n. map_of (incomingEdges g) n = Some []) (map fst (nodes g))) [] = Inr vis"
    "order = dfs_result (outgoingEdges g) b vis"
  using assms by (auto simp: overallOrder_def Let_def split: sum.splits if_splits)

lemma overallOrder_acyclic:
  assumes "overallOrder g b = Inr order" and "wf_graph g"
  shows "acyclic (deps_rel g)"
proof (cases "nodes g = []")
  case True
  with assms(2) have "outgoingEdges g = []" by (simp add: wf_graph_def)
  then have "deps_rel g = {}" by (simp add: deps_rel_def edge_rel_def)
  then show ?thesis by (simp add: acyclic_def)
next
  case False
  from overallOrder_cases[OF assms(1) False] obtain chk where
    c: "dfs_each (outgoingEdges g) [] (map fst (nodes g)) [] = Inr chk"
    by blast
  from dfs_extends(2)[OF c] have "set (map fst (nodes g)) \<subseteq> set chk" by auto
  then have "fst ` set (outgoingEdges g) \<subseteq> set chk"
    using wf_graph_out_keys[OF assms(2)] by (simp add: names_def)
  from postorder_acyclic[OF dfs_each_from_Nil(2)[OF c] dfs_each_from_Nil(1)[OF c] this]
  show ?thesis by (simp add: deps_rel_def)
qed

lemma overallOrder_set:
  assumes "overallOrder g b = Inr order" and "wf_graph g"
  shows "set order = {n \<in> names g. b \<longrightarrow> map_of (outgoingEdges g) n = Some []}"
    and "distinct order"
proof -
  have "set order = {n \<in> names g. b \<longrightarrow> map_of (outgoingEdges g) n = Some []} \<and> distinct order"
  proof (cases "nodes g = []")
    case True
    with assms(1) show ?thesis by (simp add: overallOrder_def names_def)
  next
    case False
    from overallOrder_cases[OF assms(1) False] obtain vis where
      v: "dfs_each (outgoingEdges g) []
           (filter (\<lambda>n. map_of (incomingEdges g) n = Some []) (map fst (nodes g))) [] = Inr vis"
      and o: "order = dfs_result (outgoingEdges g) b vis"
      by blast
    let ?roots = "filter (\<lambda>n. map_of (incomingEdges g) n = Some []) (map fst (nodes g))"
    have a: "acyclic (deps_rel g)" by (rule overallOrder_acyclic[OF assms])
    from dfs_each_from_Nil[OF v] have d: "distinct vis"
      and s: "set vis = (deps_rel g)\<^sup>* `` set ?roots"
      by (simp_all add: deps_rel_def)
    have "set vis = names g"
    proof
      show "set vis \<subseteq> names g"
      proof
        fix x assume "x \<in> set vis"
        with s obtain r where r: "r \<in> set ?roots" "(r, x) \<in> (deps_rel g)\<^sup>*" by auto
        from r(1) have "r \<in> names g" by (auto simp: names_def)
        with r(2) show "x \<in> names g"
          by (auto simp: rtrancl_eq_or_trancl dest: deps_rel_trancl_names(2)[OF assms(2)])
      qed
      show "names g \<subseteq> set vis"
      proof
        fix x assume "x \<in> names g"
        from reachable_from_root[OF assms(2) a this] obtain r where
          "r \<in> names g" "map_of (incomingEdges g) r = Some []" "(r, x) \<in> (deps_rel g)\<^sup>*"
          by blast
        then have "r \<in> set ?roots" by (auto simp: names_def)
        with \<open>(r, x) \<in> (deps_rel g)\<^sup>*\<close> s show "x \<in> set vis" by auto
      qed
    qed
    with d o show ?thesis by (auto simp: dfs_result_def)
  qed
  then show "set order = {n \<in> names g. b \<longrightarrow> map_of (outgoingEdges g) n = Some []}"
    and "distinct order" by simp_all
qed

lemma overallOrder_succeeds:
  assumes "wf_graph g" and "acyclic (deps_rel g)"
  shows "\<exists>order. overallOrder g b = Inr order"
proof (cases "nodes g = []")
  case True
  then show ?thesis by (simp add: overallOrder_def)
next
  case False
  let ?keys = "map fst (nodes g)"
  let ?roots = "filter (\<lambda>n. map_of (incomingEdges g) n = Some []) ?keys"
  from dfs_outgoing_succeeds[OF assms, of ?keys "[]"]
  obtain chk where c: "dfs_each (outgoingEdges g) [] ?keys [] = Inr chk"
    by (auto simp: names_def)
  from dfs_outgoing_succeeds[OF assms, of ?roots "[]"]
  obtain vis where v: "dfs_each (outgoingEdges g) [] ?roots [] = Inr vis"
    by (auto simp: names_def)
  have "\<not> (\<exists>n \<in> set ?keys. map_of (incomingEdges g) n = None)"
    using in_entry[OF assms(1)] by (auto simp: names_def)
  with False c v show ?thesis by (simp add: overallOrder_def Let_def)
qed

lemma map_of_restrict_edges:
  "map_of (restrict_edges S E) k =
     (if k \<in> S then map_option (filter (\<lambda>e. e \<in> S)) (map_of E k) else None)"
  by (induction E) (auto simp: restrict_edges_def)

lemma keys_restrict_edges: "map fst (restrict_edges S E) = filter (\<lambda>k. k \<in> S) (map fst E)"
  by (induction E) (auto simp: restrict_edges_def)

lemma keys_restrict_nodes:
  "map fst (filter (\<lambda>(k, _). k \<in> S) ns) = filter (\<lambda>k. k \<in> S) (map fst ns)"
  by (induction ns) auto

lemma edge_rel_restrict: "edge_rel (restrict_edges S E) = edge_rel E \<inter> S \<times> S"
  by (auto simp: edge_rel_def map_of_restrict_edges split: if_splits)

lemma set_restrict_edges:
  "(n, es') \<in> set (restrict_edges S E) \<Longrightarrow> \<exists>es. (n, es) \<in> set E \<and> n \<in> S \<and> es' = filter (\<lambda>e. e \<in> S) es"
  by (auto simp: restrict_edges_def)

lemma edges_ok_restrict:
  assumes "edges_ok E E'"
  shows "edges_ok (restrict_edges S E) (restrict_edges S E')"
  unfolding edges_ok_def
proof (intro ballI, clarify, intro conjI ballI)
  fix n es' assume "(n, es') \<in> set (restrict_edges S E)"
  from set_restrict_edges[OF this] obtain es where
    es: "(n, es) \<in> set E" "n \<in> S" "es' = filter (\<lambda>e. e \<in> S) es" by blast
  from assms es(1) have d: "distinct es"
    and b: "\<And>m. m \<in> set es \<Longrightarrow> case map_of E' m of None \<Rightarrow> False | Some preds \<Rightarrow> n \<in> set preds"
    by (auto simp: edges_ok_def)
  from d es(3) show "distinct es'" by simp
  fix m assume "m \<in> set es'"
  with es(3) have m: "m \<in> set es" "m \<in> S" by auto
  from b[OF m(1)] es(2) m(2)
  show "case map_of (restrict_edges S E') m of None \<Rightarrow> False | Some preds \<Rightarrow> n \<in> set preds"
    by (auto simp: map_of_restrict_edges split: option.splits)
qed

lemma wf_graph_restrict: "wf_graph g \<Longrightarrow> wf_graph (restrict_graph g S)"
  by (simp add: wf_graph_def restrict_graph_def keys_restrict_edges keys_restrict_nodes
                edges_ok_restrict)

lemma names_restrict: "names (restrict_graph g S) = names g \<inter> S"
  by (auto simp: names_def restrict_graph_def)

lemma deps_rel_restrict: "deps_rel (restrict_graph g S) = deps_rel g \<inter> S \<times> S"
  by (simp add: deps_rel_def restrict_graph_def edge_rel_restrict)

lemma acyclic_restrict: "acyclic (deps_rel g) \<Longrightarrow> acyclic (deps_rel (restrict_graph g S))"
  by (rule acyclic_subset) (auto simp: deps_rel_restrict)

lemma restrict_edges_twice: "restrict_edges T (restrict_edges S E) = restrict_edges (S \<inter> T) E"
  by (induction E) (auto simp: restrict_edges_def conj_commute)

lemma restrict_nodes_twice:
  "filter (\<lambda>(k, _). k \<in> T) (filter (\<lambda>(k, _). k \<in> S) ns) = filter (\<lambda>(k, _). k \<in> S \<inter> T) ns"
  by (induction ns) auto

lemma restrict_graph_twice: "restrict_graph (restrict_graph g S) T = restrict_graph g (S \<inter> T)"
  by (simp add: restrict_graph_def restrict_edges_twice restrict_nodes_twice del: filter_filter)

lemma restrict_edges_UNIV: "restrict_edges UNIV E = E"
  by (induction E) (auto simp: restrict_edges_def)

lemma restrict_graph_UNIV: "restrict_graph g UNIV = g"
  by (simp add: restrict_graph_def restrict_edges_UNIV)

lemma map_of_nodes_restrict:
  "map_of (nodes (restrict_graph g S)) k = (if k \<in> S then map_of (nodes g) k else None)"
proof -
  have "map_of (filter (\<lambda>(k, _). k \<in> S) ns) k = (if k \<in> S then map_of ns k else None)" for ns :: "(string \<times> 'a) list"
    by (induction ns) auto
  then show ?thesis by (simp add: restrict_graph_def)
qed

text \<open>Removing the dependencies on a node, then the node.\<close>

lemma filter_remove1_other: "filter (\<lambda>e. e \<noteq> x) (remove1 x es) = filter (\<lambda>e. e \<noteq> x) es"
  by (induction es) auto

lemma remove_edge_same_but:
  "list_all2 (same_but x) E' E \<Longrightarrow> list_all2 (same_but x) (remove_edge d x E') E"
  unfolding remove_edge_def list_all2_map1
  by (erule list_all2_mono) (auto simp: same_but_def filter_remove1_other)

lemma remove_edge_same_unless:
  "list_all2 (same_unless x) E' E \<Longrightarrow> list_all2 (same_unless x) (remove_edge x d E') E"
  unfolding remove_edge_def list_all2_map1
  by (erule list_all2_mono) (auto simp: same_unless_def)

lemma edited_refl: "edited x g g"
  by (simp add: edited_def list_all2_refl same_but_def same_unless_def)

lemma removeDependency_edited: "edited x g' g \<Longrightarrow> edited x (removeDependency g' d x) g"
  by (auto simp: edited_def removeDependency_def Let_def hasNode_def
           intro: remove_edge_same_but remove_edge_same_unless)

lemma foldl_removeDependency_edited:
  "edited x g' g \<Longrightarrow> edited x (foldl (\<lambda>g dependent. removeDependency g dependent x) g' ds) g"
  by (induction ds arbitrary: g') (auto intro: removeDependency_edited)

lemma distinct_remove1_filter: "distinct es \<Longrightarrow> remove1 x es = filter (\<lambda>e. e \<noteq> x) es"
proof (induction es)
  case Nil
  show ?case by simp
next
  case (Cons a es)
  show ?case
  proof (cases "a = x")
    case True
    with Cons.prems have "x \<notin> set es" by simp
    then have "filter (\<lambda>e. e \<noteq> x) es = es" by (auto simp: filter_id_conv)
    with True show ?thesis by simp
  next
    case False
    with Cons show ?thesis by simp
  qed
qed

lemma removeNode_same_but:
  assumes "list_all2 (same_but x) E' E" and "\<forall>(k, es) \<in> set E. distinct es"
  shows "map (\<lambda>(k, es). (k, remove1 x es)) (filter (\<lambda>(k, _). k \<noteq> x) E') = restrict_edges (- {x}) E"
  using assms
proof (induction rule: list_all2_induct)
  case Nil
  show ?case by (simp add: restrict_edges_def)
next
  case (Cons a E' b E)
  from Cons.prems have db: "distinct (snd b)" and r: "\<forall>(k, es) \<in> set E. distinct es" by auto
  from Cons.IH[OF r] have ih:
    "map (\<lambda>(k, es). (k, remove1 x es)) (filter (\<lambda>(k, _). k \<noteq> x) E') = restrict_edges (- {x}) E" .
  from Cons.hyps(1) db have "distinct (snd a)" "fst a = fst b"
    "filter (\<lambda>e. e \<noteq> x) (snd a) = filter (\<lambda>e. e \<noteq> x) (snd b)"
    by (simp_all add: same_but_def)
  then have "remove1 x (snd a) = filter (\<lambda>e. e \<in> - {x}) (snd b)"
    by (simp add: distinct_remove1_filter)
  with ih \<open>fst a = fst b\<close> show ?case
    by (cases a; cases b) (auto simp: restrict_edges_def)
qed

lemma removeNode_same_unless:
  assumes "list_all2 (same_unless x) E' E" and "\<forall>(k, es) \<in> set E. distinct es"
  shows "map (\<lambda>(k, es). (k, remove1 x es)) (filter (\<lambda>(k, _). k \<noteq> x) E') = restrict_edges (- {x}) E"
  using assms
proof (induction rule: list_all2_induct)
  case Nil
  show ?case by (simp add: restrict_edges_def)
next
  case (Cons a E' b E)
  from Cons.prems have db: "distinct (snd b)" and r: "\<forall>(k, es) \<in> set E. distinct es" by auto
  from Cons.IH[OF r] have ih:
    "map (\<lambda>(k, es). (k, remove1 x es)) (filter (\<lambda>(k, _). k \<noteq> x) E') = restrict_edges (- {x}) E" .
  from Cons.hyps(1) have ab: "fst a = fst b" "fst b \<noteq> x \<longrightarrow> snd a = snd b"
    by (simp_all add: same_unless_def)
  from db have "remove1 x (snd b) = filter (\<lambda>e. e \<in> - {x}) (snd b)"
    by (simp add: distinct_remove1_filter)
  with ih ab show ?case
    by (cases a; cases b) (auto simp: restrict_edges_def)
qed

lemma edges_distinct: "edges_ok E E' \<Longrightarrow> \<forall>(k, es) \<in> set E. distinct es"
  by (auto simp: edges_ok_def)

lemma removeStepFromWorkingGraph_restrict:
  assumes "removeStepFromWorkingGraph w x = Inr w'" and "wf_graph w"
  shows "w' = restrict_graph w (- {x})" and "x \<in> names w"
proof -
  from assms(1) obtain ds where ds: "dependantsOf w x = Inr ds"
    and w': "w' = removeNode (foldl (\<lambda>g dependent. removeDependency g dependent x) w ds) x"
    by (auto simp: removeStepFromWorkingGraph_def split: sum.splits)
  let ?f = "foldl (\<lambda>g dependent. removeDependency g dependent x) w ds"
  from ds have h: "hasNode w x" by (auto simp: dependantsOf_def split: if_splits)
  then show "x \<in> names w" by (simp add: hasNode_names)
  have e: "edited x ?f w" by (rule foldl_removeDependency_edited[OF edited_refl])
  then have n: "nodes ?f = nodes w" and m: "DepGraph.more ?f = DepGraph.more w"
    and o: "list_all2 (same_but x) (outgoingEdges ?f) (outgoingEdges w)"
    and i: "list_all2 (same_unless x) (incomingEdges ?f) (incomingEdges w)"
    by (simp_all add: edited_def)
  from h n have hf: "hasNode ?f x" by (simp add: hasNode_def)
  from assms(2) have od: "\<forall>(k, es) \<in> set (outgoingEdges w). distinct es"
    and idd: "\<forall>(k, es) \<in> set (incomingEdges w). distinct es"
    by (auto simp: wf_graph_def dest: edges_distinct)
  have "nodes w' = filter (\<lambda>(k, _). k \<in> - {x}) (nodes w)"
    using w' hf n by (simp add: removeNode_def)
  moreover have "outgoingEdges w' = restrict_edges (- {x}) (outgoingEdges w)"
    using w' hf removeNode_same_but[OF o od] by (simp add: removeNode_def)
  moreover have "incomingEdges w' = restrict_edges (- {x}) (incomingEdges w)"
    using w' hf removeNode_same_unless[OF i idd] by (simp add: removeNode_def)
  moreover have "DepGraph.more w' = DepGraph.more w"
    using w' hf m by (simp add: removeNode_def)
  ultimately show "w' = restrict_graph w (- {x})"
    by (simp add: restrict_graph_def)
qed

section \<open>Facts about the result map and the scheduling loop\<close>

lemma map_of_map_other:
  "k' \<noteq> k \<Longrightarrow>
     map_of (map (\<lambda>(k', v'). if k' = k then (k', v) else (k', v')) m) k' = map_of m k'"
  by (induction m) (auto split: if_splits)

lemma map_of_map_same:
  "k \<in> fst ` set m \<Longrightarrow>
     map_of (map (\<lambda>(k', v'). if k' = k then (k', v) else (k', v')) m) k = Some v"
proof (induction m)
  case Nil
  then show ?case by simp
next
  case (Cons a m)
  obtain ka va where a: "a = (ka, va)" by (cases a)
  show ?case
  proof (cases "ka = k")
    case True
    with a show ?thesis by simp
  next
    case False
    with a Cons.prems have "k \<in> fst ` set m" by auto
    from Cons.IH[OF this] a False show ?thesis by simp
  qed
qed

lemma map_of_map_set: "map_of (map_set k v m) k' = (if k' = k then Some v else map_of m k')"
proof (cases "k \<in> fst ` set m")
  case True
  then show ?thesis by (simp add: map_set_def map_of_map_other map_of_map_same)
next
  case False
  then have "map_of m k = None" by (simp add: map_of_eq_None_iff)
  with False show ?thesis by (auto simp: map_set_def map_add_def split: option.splits)
qed

lemma keys_map_present:
  "map fst (map (\<lambda>(k', v'). if k' = k then (k', v) else (k', v')) m) = map fst m"
  by (induction m) auto

lemma keys_map_set_present:
  assumes "k \<in> fst ` set m"
  shows "map fst (map_set k v m) = map fst m"
proof -
  from assms have "map_set k v m = map (\<lambda>(k', v'). if k' = k then (k', v) else (k', v')) m"
    by (simp add: map_set_def)
  then show ?thesis by (simp only: keys_map_present)
qed

lemma map_of_updateStepResultStatus:
  "map_of (updateStepResultStatus results stepId st enc) k =
     (if k = stepId
      then map_option (\<lambda>r. r\<lparr>status := st, encounteredTypes := enc\<rparr>) (map_of results stepId)
      else map_of results k)"
  by (simp add: updateStepResultStatus_def map_of_map_set split: option.splits)

lemma keys_updateStepResultStatus:
  "map fst (updateStepResultStatus results stepId st enc) = map fst results"
proof (cases "map_of results stepId")
  case None
  then show ?thesis by (simp add: updateStepResultStatus_def)
next
  case (Some r)
  then have "stepId \<in> fst ` set results" by (metis map_of_eq_None_iff option.distinct(1))
  with Some show ?thesis by (simp add: updateStepResultStatus_def keys_map_set_present)
qed

text \<open>One round of the loop of \<open>enqueueLeafSteps\<close>: it throws, it skips the step, or it
  takes the step out of the working graph and adds its task to the queue.\<close>

lemma enqueue_each_Cons_cases:
  obtains
    (thrown) e where "enqueue_each inputGraph stepStartStates (x # rest) s = (s, Some e)"
  | (skip) step where "getNodeData (workingGraph s) x = Inr step"
      "isStepEnabled stepStartStates x = Inr False
       \<or> stepDependenciesAreComplete inputGraph (stepResultsMap s) x = Inr False"
      "enqueue_each inputGraph stepStartStates (x # rest) s
         = enqueue_each inputGraph stepStartStates rest s"
  | (dispatch) step g where "getNodeData (workingGraph s) x = Inr step"
      "isStepEnabled stepStartStates x = Inr True"
      "stepDependenciesAreComplete inputGraph (stepResultsMap s) x = Inr True"
      "removeStepFromWorkingGraph (workingGraph s) x = Inr g"
      "enqueue_each inputGraph stepStartStates (x # rest) s
         = enqueue_each inputGraph stepStartStates rest
             (s\<lparr>workingGraph := g, pendingTasks := pendingTasks s @ [(x, step)]\<rparr>)"
proof (cases "getNodeData (workingGraph s) x")
  case (Inl e)
  then show ?thesis by (intro thrown[of e]) simp
next
  case step: (Inr step)
  show ?thesis
  proof (cases "isStepEnabled stepStartStates x")
    case (Inl e)
    with step show ?thesis by (intro thrown[of e]) simp
  next
    case en: (Inr enabled)
    show ?thesis
    proof (cases enabled)
      case False
      with step en show ?thesis by (intro skip[of step]) simp_all
    next
      case True
      show ?thesis
      proof (cases "stepDependenciesAreComplete inputGraph (stepResultsMap s) x")
        case (Inl e)
        with step en True show ?thesis by (intro thrown[of e]) simp
      next
        case co: (Inr dependenciesComplete)
        show ?thesis
        proof (cases dependenciesComplete)
          case False
          with step en True co show ?thesis by (intro skip[of step]) simp_all
        next
          case c: True
          show ?thesis
          proof (cases "removeStepFromWorkingGraph (workingGraph s) x")
            case (Inl e)
            with step en True co c show ?thesis by (intro thrown[of e]) simp
          next
            case (Inr g)
            with step en True co c show ?thesis by (intro dispatch[of step g]) simp_all
          qed
        qed
      qed
    qed
  qed
qed

text \<open>A property of the state that every dispatch keeps holds after the loop.\<close>

lemma enqueue_each_invariant:
  assumes "P s"
    and "\<And>s x step g. P s \<Longrightarrow> x \<in> set leaves
           \<Longrightarrow> getNodeData (workingGraph s) x = Inr step
           \<Longrightarrow> isStepEnabled stepStartStates x = Inr True
           \<Longrightarrow> stepDependenciesAreComplete inputGraph (stepResultsMap s) x = Inr True
           \<Longrightarrow> removeStepFromWorkingGraph (workingGraph s) x = Inr g
           \<Longrightarrow> P (s\<lparr>workingGraph := g, pendingTasks := pendingTasks s @ [(x, step)]\<rparr>)"
  shows "P (fst (enqueue_each inputGraph stepStartStates leaves s))"
  using assms
proof (induction leaves arbitrary: s)
  case Nil
  then show ?case by simp
next
  case (Cons x rest)
  show ?case
  proof (cases rule: enqueue_each_Cons_cases[of inputGraph stepStartStates x rest s])
    case (thrown e)
    with Cons.prems(1) show ?thesis by simp
  next
    case (skip step)
    have "P (fst (enqueue_each inputGraph stepStartStates rest s))"
      by (rule Cons.IH[OF Cons.prems(1)]) (auto intro: Cons.prems(2))
    with skip(3) show ?thesis by simp
  next
    case (dispatch step g)
    have p: "P (s\<lparr>workingGraph := g, pendingTasks := pendingTasks s @ [(x, step)]\<rparr>)"
      by (rule Cons.prems(2)[OF Cons.prems(1) _ dispatch(1-4)]) simp
    have "P (fst (enqueue_each inputGraph stepStartStates rest
                    (s\<lparr>workingGraph := g, pendingTasks := pendingTasks s @ [(x, step)]\<rparr>)))"
      by (rule Cons.IH[OF p]) (auto intro: Cons.prems(2))
    with dispatch(5) show ?thesis by simp
  qed
qed

lemma enqueue_each_keeps:
  "stepResultsMap (fst (enqueue_each inputGraph stepStartStates leaves s)) = stepResultsMap s
   \<and> isPaused (fst (enqueue_each inputGraph stepStartStates leaves s)) = isPaused s
   \<and> settled (fst (enqueue_each inputGraph stepStartStates leaves s)) = settled s
   \<and> logged (fst (enqueue_each inputGraph stepStartStates leaves s)) = logged s"
  by (rule enqueue_each_invariant[where P = "\<lambda>s'. stepResultsMap s' = stepResultsMap s
        \<and> isPaused s' = isPaused s \<and> settled s' = settled s \<and> logged s' = logged s"]) simp_all

lemma enqueueLeafSteps_keeps:
  "enqueueLeafSteps inputGraph stepStartStates s = (s', thrown) \<Longrightarrow>
     stepResultsMap s' = stepResultsMap s \<and> isPaused s' = isPaused s
     \<and> settled s' = settled s \<and> logged s' = logged s"
  using enqueue_each_keeps[of inputGraph stepStartStates _ s]
  by (auto simp: enqueueLeafSteps_def split: if_splits sum.splits) (metis fst_conv)+

lemma out_restrict:
  "map_of (outgoingEdges (restrict_graph g S)) n =
     (if n \<in> S then map_option (filter (\<lambda>e. e \<in> S)) (map_of (outgoingEdges g) n) else None)"
  by (simp add: restrict_graph_def map_of_restrict_edges)

lemma getNodeData_names: "getNodeData g n = Inr d \<Longrightarrow> n \<in> names g"
  by (auto simp: getNodeData_def names_def split: option.splits dest!: map_of_SomeD
           intro: image_eqI[where x="(n, d)"])

lemma getNodeData_restrict:
  "getNodeData (restrict_graph g S) n = Inr d \<Longrightarrow> map_of (nodes g) n = Some d"
  by (auto simp: getNodeData_def map_of_nodes_restrict split: option.splits if_splits)

lemma enabled_not_disabled:
  "isStepEnabled stepStartStates n = Inr True \<Longrightarrow> disabledTruthy stepStartStates n = Inr False"
  by (auto simp: isStepEnabled_def disabledTruthy_def split: option.splits)

text \<open>A step that stands behind a disabled step has a dependency left in the working
  graph, so it is no leaf.\<close>

lemma leaf_not_barred:
  assumes w: "wf_graph g"
    and b: "barred g stepStartStates \<subseteq> names (restrict_graph g S)"
    and x: "x \<in> names (restrict_graph g S)"
    and l: "map_of (outgoingEdges (restrict_graph g S)) x = Some []"
    and e: "isStepEnabled stepStartStates x = Inr True"
  shows "x \<notin> barred g stepStartStates"
proof
  assume "x \<in> barred g stepStartStates"
  with enabled_not_disabled[OF e] obtain d where
    d: "(x, d) \<in> (deps_rel g)\<^sup>+" "disabledTruthy stepStartStates d = Inr True"
    by (auto simp: barred_def)
  from d(1) obtain u where u: "(x, u) \<in> deps_rel g" "(u, d) \<in> (deps_rel g)\<^sup>*"
    by (auto dest: tranclD)
  have un: "u \<in> names g" by (rule deps_rel_names(2)[OF w u(1)])
  from u(2) d(2) un have "u \<in> barred g stepStartStates"
    by (auto simp: barred_def rtrancl_eq_or_trancl)
  with b have uS: "u \<in> S" by (auto simp: names_restrict)
  from x have xS: "x \<in> S" by (simp add: names_restrict)
  from u(1) obtain es where es: "map_of (outgoingEdges g) x = Some es" "u \<in> set es"
    by (auto simp: deps_rel_def edge_rel_def)
  with xS uS l show False by (auto simp: out_restrict filter_empty_conv)
qed

lemma base_inv_dispatch:
  assumes inv: "base_inv g stepStartStates s"
    and l: "map_of (outgoingEdges (workingGraph s)) x = Some []"
    and d: "getNodeData (workingGraph s) x = Inr step"
    and e: "isStepEnabled stepStartStates x = Inr True"
    and r: "removeStepFromWorkingGraph (workingGraph s) x = Inr g'"
  shows "base_inv g stepStartStates
           (s\<lparr>workingGraph := g', pendingTasks := pendingTasks s @ [(x, step)]\<rparr>)"
    and "names g' = names (workingGraph s) - {x}"
    and "g' = restrict_graph (workingGraph s) (- {x})"
proof -
  from inv obtain S where S: "workingGraph s = restrict_graph g S"
    and w: "wf_graph g" by (auto simp: base_inv_def)
  have ww: "wf_graph (workingGraph s)" unfolding S by (rule wf_graph_restrict[OF w])
  from removeStepFromWorkingGraph_restrict[OF r ww]
  have g': "g' = restrict_graph (workingGraph s) (- {x})" and x: "x \<in> names (workingGraph s)"
    by simp_all
  show "g' = restrict_graph (workingGraph s) (- {x})" by (rule g')
  from g' show n: "names g' = names (workingGraph s) - {x}"
    by (auto simp: names_restrict)
  from g' S have g'S: "g' = restrict_graph g (S \<inter> - {x})" by (simp add: restrict_graph_twice)
  from inv have b: "barred g stepStartStates \<subseteq> names (workingGraph s)"
    by (simp add: base_inv_def)
  have "x \<notin> barred g stepStartStates"
  proof (rule leaf_not_barred[OF w _ _ _ e])
    show "barred g stepStartStates \<subseteq> names (restrict_graph g S)" using b by (simp add: S)
    show "x \<in> names (restrict_graph g S)" using x by (simp add: S)
    show "map_of (outgoingEdges (restrict_graph g S)) x = Some []" using l by (simp add: S)
  qed
  with b n have b': "barred g stepStartStates \<subseteq> names g'" by auto
  from d have st: "map_of (nodes g) x = Some step"
    unfolding S by (rule getNodeData_restrict)
  from inv n st b' g'S show "base_inv g stepStartStates
           (s\<lparr>workingGraph := g', pendingTasks := pendingTasks s @ [(x, step)]\<rparr>)"
    by (auto simp: base_inv_def)
qed

lemma leafy_dispatch:
  assumes "leafy leaves s" and "g' = restrict_graph (workingGraph s) (- {x})"
  shows "leafy leaves (s\<lparr>workingGraph := g', pendingTasks := p\<rparr>)"
  using assms by (auto simp: leafy_def names_restrict out_restrict)

lemma ready_cong:
  "stepResultsMap s' = stepResultsMap s \<Longrightarrow> ready g stepStartStates s' n = ready g stepStartStates s n"
  by (simp add: ready_def)

text \<open>What the loop of \<open>enqueueLeafSteps\<close> leaves behind when it runs over leaves of the
  working graph.\<close>

lemma enqueue_each_post:
  assumes "base_inv g stepStartStates s" and "leafy leaves s"
    and "enqueue_each g stepStartStates leaves s = (s', thrown)"
  shows "base_inv g stepStartStates s' \<and> (\<forall>ls. leafy ls s \<longrightarrow> leafy ls s')
     \<and> stepResultsMap s' = stepResultsMap s \<and> isPaused s' = isPaused s
     \<and> settled s' = settled s
     \<and> names (workingGraph s') \<subseteq> names (workingGraph s)
     \<and> names (workingGraph s) - names (workingGraph s') \<subseteq> fst ` set (pendingTasks s')
     \<and> set (pendingTasks s) \<subseteq> set (pendingTasks s')
     \<and> (thrown = None \<longrightarrow>
           (\<forall>x \<in> set leaves. ready g stepStartStates s x \<longrightarrow> x \<notin> names (workingGraph s')))"
  using assms
proof (induction leaves arbitrary: s)
  case Nil
  then show ?case by simp
next
  case (Cons x rest)
  from Cons.prems(2) have lr: "leafy rest s" by (simp add: leafy_def)
  show ?case
  proof (cases rule: enqueue_each_Cons_cases[of g stepStartStates x rest s])
    case (thrown e)
    with Cons.prems show ?thesis by auto
  next
    case (skip step)
    from skip(2) have nr: "\<not> ready g stepStartStates s x" by (auto simp: ready_def)
    from skip(3) Cons.prems(3) have "enqueue_each g stepStartStates rest s = (s', thrown)" by simp
    from Cons.IH[OF Cons.prems(1) lr this] nr show ?thesis by simp
  next
    case (dispatch step g')
    let ?s = "s\<lparr>workingGraph := g', pendingTasks := pendingTasks s @ [(x, step)]\<rparr>"
    from dispatch(1) have xr: "x \<in> names (workingGraph s)" by (rule getNodeData_names)
    with Cons.prems(2) have l: "map_of (outgoingEdges (workingGraph s)) x = Some []"
      by (simp add: leafy_def)
    from base_inv_dispatch[OF Cons.prems(1) l dispatch(1,2,4)]
    have b: "base_inv g stepStartStates ?s" and n: "names g' = names (workingGraph s) - {x}"
      and g': "g' = restrict_graph (workingGraph s) (- {x})" by simp_all
    have lf: "leafy ls ?s" if "leafy ls s" for ls by (rule leafy_dispatch[OF that g'])
    from dispatch(5) Cons.prems(3) have q: "enqueue_each g stepStartStates rest ?s = (s', thrown)"
      by simp
    from Cons.IH[OF b lf[OF lr] q]
    have ih: "base_inv g stepStartStates s'" "\<And>ls. leafy ls ?s \<Longrightarrow> leafy ls s'"
      "stepResultsMap s' = stepResultsMap s" "isPaused s' = isPaused s"
      "settled s' = settled s"
      "names (workingGraph s') \<subseteq> names g'"
      "names g' - names (workingGraph s') \<subseteq> fst ` set (pendingTasks s')"
      "set (pendingTasks s) \<union> {(x, step)} \<subseteq> set (pendingTasks s')"
      "thrown = None \<Longrightarrow>
           (\<forall>y \<in> set rest. ready g stepStartStates ?s y \<longrightarrow> y \<notin> names (workingGraph s'))"
      by simp_all
    have r: "ready g stepStartStates ?s y = ready g stepStartStates s y" for y
      by (simp add: ready_def)
    have "names (workingGraph s) - names (workingGraph s') \<subseteq> fst ` set (pendingTasks s')"
    proof
      fix y assume y: "y \<in> names (workingGraph s) - names (workingGraph s')"
      show "y \<in> fst ` set (pendingTasks s')"
      proof (cases "y = x")
        case True
        from ih(8) have "(x, step) \<in> set (pendingTasks s')" by simp
        with True show ?thesis by (auto intro: image_eqI[where x="(x, step)"])
      next
        case False
        with y n have "y \<in> names g' - names (workingGraph s')" by simp
        with ih(7) show ?thesis by blast
      qed
    qed
    moreover have "thrown = None \<longrightarrow>
           (\<forall>y \<in> set (x # rest). ready g stepStartStates s y \<longrightarrow> y \<notin> names (workingGraph s'))"
      using ih(9) ih(6) n by (auto simp: r)
    ultimately show ?thesis
      using ih(1-6,8) lf n by auto
  qed
qed


lemma isPendingStatus_status_of:
  "isPendingStatus (map_of results n) = (status_of results n = Some PENDING_EVALUATION)"
  by (auto simp: isPendingStatus_def status_of_def split: option.splits)

lemma stepDependenciesAreComplete_iff:
  assumes "wf_graph g" and "acyclic (deps_rel g)" and "n \<in> names g"
  shows "stepDependenciesAreComplete g results n =
           Inr (\<forall>t. (n, t) \<in> (deps_rel g)\<^sup>+ \<longrightarrow> status_of results t \<noteq> Some PENDING_EVALUATION)"
proof -
  from dependenciesOf_succeeds[OF assms] obtain ds where ds: "dependenciesOf g n = Inr ds"
    by blast
  from dependenciesOf_set(1)[OF ds assms(2)] have s: "set ds = (deps_rel g)\<^sup>+ `` {n}" .
  have "(length (filter isPendingStatus (map (map_of results) ds)) = 0)
          = (\<forall>t \<in> set ds. status_of results t \<noteq> Some PENDING_EVALUATION)"
    by (auto simp: filter_empty_conv isPendingStatus_status_of)
  then have "(length (filter isPendingStatus (map (map_of results) ds)) = 0)
     = (\<forall>t. (n, t) \<in> (deps_rel g)\<^sup>+ \<longrightarrow> status_of results t \<noteq> Some PENDING_EVALUATION)"
    unfolding s by blast
  with ds show ?thesis by (simp only: stepDependenciesAreComplete_def sum.case)
qed

lemma enqueueLeafSteps_post:
  assumes inv: "base_inv g stepStartStates s"
    and q: "enqueueLeafSteps g stepStartStates s = (s', thrown)"
  shows "base_inv g stepStartStates s' \<and> stepResultsMap s' = stepResultsMap s
     \<and> isPaused s' = isPaused s \<and> settled s' = settled s
     \<and> names (workingGraph s') \<subseteq> names (workingGraph s)
     \<and> names (workingGraph s) - names (workingGraph s') \<subseteq> fst ` set (pendingTasks s')
     \<and> set (pendingTasks s) \<subseteq> set (pendingTasks s')
     \<and> (\<not> isPaused s \<and> thrown = None \<longrightarrow> quiescent g stepStartStates s')"
proof (cases "isPaused s")
  case True
  with q inv show ?thesis by (simp add: enqueueLeafSteps_def)
next
  case np: False
  from inv obtain S where S: "workingGraph s = restrict_graph g S"
    and w: "wf_graph g" and a: "acyclic (deps_rel g)" by (auto simp: base_inv_def)
  have ww: "wf_graph (workingGraph s)" unfolding S by (rule wf_graph_restrict[OF w])
  show ?thesis
  proof (cases "overallOrder (workingGraph s) True")
    case (Inl e)
    with q np inv show ?thesis by (auto simp: enqueueLeafSteps_def)
  next
    case (Inr leaves)
    from overallOrder_set(1)[OF Inr ww]
    have ls: "set leaves = {n \<in> names (workingGraph s).
                 map_of (outgoingEdges (workingGraph s)) n = Some []}" by simp
    then have lf: "leafy leaves s" by (simp add: leafy_def)
    from q np Inr have e: "enqueue_each g stepStartStates leaves s = (s', thrown)"
      by (simp add: enqueueLeafSteps_def)
    from enqueue_each_post[OF inv lf e]
    have p: "base_inv g stepStartStates s'" "stepResultsMap s' = stepResultsMap s"
      "isPaused s' = isPaused s" "settled s' = settled s"
      "names (workingGraph s') \<subseteq> names (workingGraph s)"
      "names (workingGraph s) - names (workingGraph s') \<subseteq> fst ` set (pendingTasks s')"
      "set (pendingTasks s) \<subseteq> set (pendingTasks s')"
      "thrown = None \<Longrightarrow>
           (\<forall>x \<in> set leaves. ready g stepStartStates s x \<longrightarrow> x \<notin> names (workingGraph s'))"
      by simp_all
    have "quiescent g stepStartStates s'" if t: "thrown = None"
      unfolding quiescent_def
    proof (intro ballI impI notI)
      fix n assume n: "n \<in> names (workingGraph s')"
        and l': "map_of (outgoingEdges (workingGraph s')) n = Some []"
        and r': "ready g stepStartStates s' n"
      from r' have r: "ready g stepStartStates s n" by (simp add: ready_def p(2))
      from n p(5) have nw: "n \<in> names (workingGraph s)" by auto
      from p(1) obtain S' where S': "workingGraph s' = restrict_graph g S'"
        by (auto simp: base_inv_def)
      from nw have ng: "n \<in> names g" and nS: "n \<in> S" by (simp_all add: S names_restrict)
      from n have nS': "n \<in> S'" by (simp add: S' names_restrict)
      from out_entry[OF w ng] obtain es where es: "map_of (outgoingEdges g) n = Some es" by blast
      show False
      proof (cases "map_of (outgoingEdges (workingGraph s)) n = Some []")
        case True
        with nw ls have "n \<in> set leaves" by simp
        with p(8)[OF t] r n show False by blast
      next
        case False
        with es nS obtain t where t: "t \<in> set es" "t \<in> S"
          by (auto simp: S out_restrict filter_empty_conv)
        from l' es nS' t(1) have tS': "t \<notin> S'"
          by (auto simp: S' out_restrict filter_empty_conv)
        from es t(1) have nt: "(n, t) \<in> deps_rel g" by (auto simp: deps_rel_def intro: edge_relI)
        have tg: "t \<in> names g" by (rule deps_rel_names(2)[OF w nt])
        with t(2) have tw: "t \<in> names (workingGraph s)" by (simp add: S names_restrict)
        from tS' have tw': "t \<notin> names (workingGraph s')" by (simp add: S' names_restrict)
        from p(1) tw' have "t \<notin> barred g stepStartStates" by (auto simp: base_inv_def)
        with inv tw have "status_of (stepResultsMap s) t = Some PENDING_EVALUATION"
          by (auto simp: base_inv_def initial_status_def)
        with nt have "\<not> (\<forall>t. (n, t) \<in> (deps_rel g)\<^sup>+
                \<longrightarrow> status_of (stepResultsMap s) t \<noteq> Some PENDING_EVALUATION)"
          by blast
        with r show False
          by (simp add: ready_def stepDependenciesAreComplete_iff[OF w a ng])
      qed
    qed
    with p show ?thesis by simp
  qed
qed

text \<open>Writing the status of a step that has left the working graph.\<close>

lemma set_map_set:
  "(k', v') \<in> set (map_set k v m) \<Longrightarrow> (k', v') \<in> set m \<or> (k' = k \<and> v' = v)"
  by (auto simp: map_set_def split: if_splits)

lemma status_of_update:
  "status_of (updateStepResultStatus results k st enc) n =
     (if n = k then map_option (\<lambda>_. st) (map_of results k) else status_of results n)"
  by (simp add: status_of_def map_of_updateStepResultStatus option.map_comp comp_def)

lemma base_inv_update:
  assumes inv: "base_inv g stepStartStates s" and k: "k \<notin> names (workingGraph s)"
  shows "base_inv g stepStartStates
           (s\<lparr>logged := l,
              stepResultsMap := updateStepResultStatus (stepResultsMap s) k st enc\<rparr>)"
proof -
  have i: "\<forall>(k', r) \<in> set (updateStepResultStatus (stepResultsMap s) k st enc). result_id r = k'"
  proof (cases "map_of (stepResultsMap s) k")
    case None
    with inv show ?thesis by (simp add: updateStepResultStatus_def base_inv_def)
  next
    case (Some r)
    then have "(k, r) \<in> set (stepResultsMap s)" by (rule map_of_SomeD)
    with inv have "result_id r = k" by (auto simp: base_inv_def)
    with inv Some show ?thesis
      by (auto simp: updateStepResultStatus_def base_inv_def dest!: set_map_set)
  qed
  have "status_of (updateStepResultStatus (stepResultsMap s) k st enc) n
          = status_of (stepResultsMap s) n" if "n \<in> names (workingGraph s)" for n
    using that k by (auto simp: status_of_update)
  with inv i show ?thesis
    by (simp add: base_inv_def keys_updateStepResultStatus)
qed


section \<open>The initial result map\<close>

lemma map_throwing_all2:
  "map_throwing f xs = Inr ys \<Longrightarrow> list_all2 (\<lambda>x y. f x = Inr y) xs ys"
proof (induction xs arbitrary: ys)
  case Nil
  then show ?case by simp
next
  case (Cons x xs)
  then show ?case by (auto split: sum.splits)
qed

lemma foldl_map_set_distinct:
  "distinct (map fst (acc @ es)) \<Longrightarrow> foldl (\<lambda>m (k, v). map_set k v m) acc es = acc @ es"
proof (induction es arbitrary: acc)
  case Nil
  then show ?case by simp
next
  case (Cons e es)
  obtain k v where e: "e = (k, v)" by (cases e)
  from Cons.prems e have "k \<notin> fst ` set acc" by auto
  then have m: "map_set k v acc = acc @ [(k, v)]" by (simp add: map_set_def)
  from Cons.prems e have "distinct (map fst ((acc @ [(k, v)]) @ es))" by simp
  from Cons.IH[OF this] m e show ?case by simp
qed

lemma new_Map_distinct: "distinct (map fst es) \<Longrightarrow> new_Map es = es"
  using foldl_map_set_distinct[of "[]" es] by (simp add: new_Map_def)

lemma overallOrder_distinct:
  assumes "overallOrder g b = Inr order"
  shows "distinct order"
proof (cases "nodes g = []")
  case True
  with assms show ?thesis by (simp add: overallOrder_def)
next
  case False
  from overallOrder_cases[OF assms False] obtain vis where
    v: "dfs_each (outgoingEdges g) []
         (filter (\<lambda>n. map_of (incomingEdges g) n = Some []) (map fst (nodes g))) [] = Inr vis"
    and o: "order = dfs_result (outgoingEdges g) b vis"
    by blast
  from dfs_each_from_Nil(1)[OF v] o show ?thesis by (simp add: dfs_result_def)
qed

lemma overallOrder_subset_names:
  assumes "overallOrder g b = Inr order"
  shows "set order \<subseteq> {n. map_of (outgoingEdges g) n \<noteq> None}"
proof (cases "nodes g = []")
  case True
  with assms show ?thesis by (simp add: overallOrder_def)
next
  case False
  from overallOrder_cases[OF assms False] obtain vis where
    v: "dfs_each (outgoingEdges g) []
         (filter (\<lambda>n. map_of (incomingEdges g) n = Some []) (map fst (nodes g))) [] = Inr vis"
    and o: "order = dfs_result (outgoingEdges g) b vis"
    by blast
  from dfs_each_from_Nil(2)[OF v] have "\<forall>x \<in> set vis. map_of (outgoingEdges g) x \<noteq> None"
    using postorder_has_entry by fastforce
  with o show ?thesis by (auto simp: dfs_result_def)
qed

lemma buildStepResult_id:
  assumes "buildStepResult g stepStartStates n = Inr r" and "named g"
  shows "result_id r = n"
proof -
  from assms(1) obtain step where s: "getNodeData g n = Inr step" and r: "result_id r = step_id step"
    by (auto simp: buildStepResult_def Let_def split: sum.splits prod.splits)
  from s have "(n, step) \<in> set (nodes g)"
    by (auto simp: getNodeData_def split: option.splits dest: map_of_SomeD)
  with assms(2) r show ?thesis by (auto simp: named_def)
qed

lemma map_throwing_disabledTruthy:
  "map_throwing (disabledTruthy stepStartStates) deps = Inr flags \<Longrightarrow>
     (length (filter (\<lambda>b. b) flags) > 0)
       = (\<exists>d \<in> set deps. disabledTruthy stepStartStates d = Inr True)"
proof (induction deps arbitrary: flags)
  case Nil
  then show ?case by simp
next
  case (Cons d deps)
  from Cons.prems obtain f fs where f: "disabledTruthy stepStartStates d = Inr f"
    and fs: "map_throwing (disabledTruthy stepStartStates) deps = Inr fs"
    and fl: "flags = f # fs"
    by (auto split: sum.splits)
  from Cons.IH[OF fs] f fl show ?case by auto
qed

lemma buildStepResult_status:
  assumes b: "buildStepResult g stepStartStates n = Inr r" and n: "named g"
    and a: "acyclic (deps_rel g)"
  shows "status r = initial_status g stepStartStates n"
proof -
  from b obtain step deps flags d where s: "getNodeData g n = Inr step"
    and ds: "dependenciesOf g (step_id step) = Inr deps"
    and fl: "map_throwing (disabledTruthy stepStartStates) deps = Inr flags"
    and d: "disabledTruthy stepStartStates (step_id step) = Inr d"
    and st: "status r = (if d \<or> length (filter (\<lambda>b. b) flags) > 0
                         then DISABLED else PENDING_EVALUATION)"
    by (auto simp: buildStepResult_def Let_def split: sum.splits prod.splits)
  from s have "(n, step) \<in> set (nodes g)"
    by (auto simp: getNodeData_def split: option.splits dest: map_of_SomeD)
  with n have i: "step_id step = n" and ng: "n \<in> names g"
    by (auto simp: named_def names_def intro: image_eqI[where x="(n, step)"])
  from dependenciesOf_set(1)[OF ds a] i have sd: "set deps = (deps_rel g)\<^sup>+ `` {n}" by simp
  from map_throwing_disabledTruthy[OF fl] sd
  have "(length (filter (\<lambda>b. b) flags) > 0)
          = (\<exists>t. (n, t) \<in> (deps_rel g)\<^sup>+ \<and> disabledTruthy stepStartStates t = Inr True)"
    by auto
  with st d i ng show ?thesis by (auto simp: initial_status_def barred_def)
qed

lemma initial_results:
  assumes b: "buildStepResultsMap g stepStartStates = Inr results" and n: "named g"
  shows "overallOrder g False = Inr (map fst results)"
    and "\<forall>(k, r) \<in> set results. result_id r = k"
    and "acyclic (deps_rel g) \<Longrightarrow>
           \<forall>(k, r) \<in> set results. status r = initial_status g stepStartStates k"
proof -
  from b obtain order rs where o: "overallOrder g False = Inr order"
    and m: "map_throwing (buildStepResult g stepStartStates) order = Inr rs"
    and r: "results = new_Map (map (\<lambda>result. (result_id result, result)) rs)"
    by (auto simp: buildStepResultsMap_def split: sum.splits)
  from map_throwing_all2[OF m]
  have l: "list_all2 (\<lambda>x y. buildStepResult g stepStartStates x = Inr y) order rs" .
  then have "list_all2 (\<lambda>x y. result_id y = x) order rs"
    by (rule list_all2_mono) (auto dest: buildStepResult_id[OF _ n])
  then have ids: "map result_id rs = order"
    by (induction rule: list_all2_induct) auto
  with overallOrder_distinct[OF o] r
  have res: "results = map (\<lambda>result. (result_id result, result)) rs"
    by (simp add: new_Map_distinct comp_def)
  with ids o show "overallOrder g False = Inr (map fst results)" by (simp add: comp_def)
  from res show "\<forall>(k, r) \<in> set results. result_id r = k" by auto
  show "\<forall>(k, r) \<in> set results. status r = initial_status g stepStartStates k"
    if a: "acyclic (deps_rel g)"
  proof -
    from l have "list_all2 (\<lambda>x y. result_id y = x \<and> status y = initial_status g stepStartStates x)
                  order rs"
      by (rule list_all2_mono)
         (auto dest: buildStepResult_id[OF _ n] buildStepResult_status[OF _ n a])
    then have "\<forall>y \<in> set rs. status y = initial_status g stepStartStates (result_id y)"
      by (induction rule: list_all2_induct) auto
    with res show ?thesis by auto
  qed
qed

lemma status_of_distinct:
  assumes "distinct (map fst results)" and "(k, r) \<in> set results"
  shows "status_of results k = Some (status r)"
  using assms by (simp add: status_of_def)

section \<open>The invariant of the scheduler\<close>

lemma executeStep_status_terminal:
  assumes "executeStep_status g stepStartStates results step run = (Inr st, logs)"
  shows "st = CACHED \<or> st = SUCCESS \<or> st = PARTIAL_SUCCESS_DUE_TO_DEPENDENCY_FAILURE \<or> st = FAILURE"
proof -
  obtain h hl where h: "executeStep_handler g stepStartStates results step run = (h, hl)"
    by (cases "executeStep_handler g stepStartStates results step run")
  have "h = Inr st' \<Longrightarrow>
          st' = CACHED \<or> st' = SUCCESS \<or> st' = PARTIAL_SUCCESS_DUE_TO_DEPENDENCY_FAILURE
          \<or> st' = FAILURE" for st'
    using h
    by (auto simp: executeStep_handler_def executeStep_try_def
             split: sum.splits prod.splits if_splits option.splits)
  with assms h show ?thesis
    by (auto simp: executeStep_status_def split: sum.splits option.splits)
qed

lemma base_inv_pending:
  assumes "base_inv g stepStartStates s" and "set p \<subseteq> set (pendingTasks s)"
  shows "base_inv g stepStartStates (s\<lparr>pendingTasks := p\<rparr>)"
  using assms by (auto simp: base_inv_def)

lemma base_inv_cong:
  assumes "base_inv g stepStartStates s" and "workingGraph s' = workingGraph s"
    and "stepResultsMap s' = stepResultsMap s" and "set (pendingTasks s') \<subseteq> set (pendingTasks s)"
  shows "base_inv g stepStartStates s'"
  using assms by (auto simp: base_inv_def)

lemma live_inv_cong:
  assumes "live_inv g stepStartStates s" and "workingGraph s' = workingGraph s"
    and "stepResultsMap s' = stepResultsMap s" and "pendingTasks s' = pendingTasks s"
  shows "live_inv g stepStartStates s'"
  using assms by (simp add: live_inv_def quiescent_def ready_def)

lemma sched_inv_rejected:
  assumes "base_inv g stepStartStates s" and "settled s = Some (Inl e)"
  shows "sched_inv g stepStartStates s"
  using assms by (simp add: sched_inv_def)

lemma onIdle_fields:
  "workingGraph (onIdle s) = workingGraph s" "stepResultsMap (onIdle s) = stepResultsMap s"
  "pendingTasks (onIdle s) = pendingTasks s" "isPaused (onIdle s) = isPaused s"
  by (simp_all add: onIdle_def)

lemma settled_onIdle:
  "settled (onIdle s) =
     (if pendingTasks s = [] \<and> settled s = None
      then Some (Inr (map snd (stepResultsMap s))) else settled s)"
  by (simp add: onIdle_def)

lemma sched_invI:
  assumes "base_inv g stepStartStates s"
    and "settled s = None \<Longrightarrow> \<not> isPaused s"
    and "settled s = None \<Longrightarrow> live_inv g stepStartStates s"
    and "\<And>rs. settled s = Some (Inr rs) \<Longrightarrow> rs = map snd (stepResultsMap s)"
    and "\<And>rs. settled s = Some (Inr rs) \<Longrightarrow> pendingTasks s = []"
    and "\<And>rs. settled s = Some (Inr rs) \<Longrightarrow> live_inv g stepStartStates s"
  shows "sched_inv g stepStartStates s"
  unfolding sched_inv_def
proof (intro conjI impI allI)
  show "base_inv g stepStartStates s" by (rule assms(1))
  show "\<not> isPaused s" if "settled s = None" using that by (rule assms(2))
  show "live_inv g stepStartStates s" if "settled s = None" using that by (rule assms(3))
  show "rs = map snd (stepResultsMap s)" if "settled s = Some (Inr rs)" for rs
    using that by (rule assms(4))
  show "pendingTasks s = []" if "settled s = Some (Inr rs)" for rs
    using that by (rule assms(5))
  show "live_inv g stepStartStates s" if "settled s = Some (Inr rs)" for rs
    using that by (rule assms(6))
qed

lemma sched_inv_onIdle:
  assumes b: "base_inv g stepStartStates s"
    and l1: "settled s = None \<Longrightarrow> \<not> isPaused s"
    and l2: "settled s = None \<Longrightarrow> live_inv g stepStartStates s"
    and r: "\<And>rs. settled s \<noteq> Some (Inr rs)"
  shows "sched_inv g stepStartStates (onIdle s)"
proof (rule sched_invI)
  show "base_inv g stepStartStates (onIdle s)"
    by (rule base_inv_cong[OF b]) (simp_all only: onIdle_fields subset_refl)
next
  assume a: "settled (onIdle s) = None"
  then have n: "settled s = None" by (simp add: settled_onIdle split: if_splits)
  from l1[OF n] show "\<not> isPaused (onIdle s)" by (simp only: onIdle_fields simp_thms)
  show "live_inv g stepStartStates (onIdle s)"
    by (rule live_inv_cong[OF l2[OF n]]) (simp_all only: onIdle_fields)
next
  fix rs assume a: "settled (onIdle s) = Some (Inr rs)"
  with r have c: "pendingTasks s = []" "settled s = None"
    and rs: "rs = map snd (stepResultsMap s)"
    by (auto simp: settled_onIdle split: if_splits)
  from rs show "rs = map snd (stepResultsMap (onIdle s))" by (simp only: onIdle_fields)
  from c(1) show "pendingTasks (onIdle s) = []" by (simp only: onIdle_fields)
  show "live_inv g stepStartStates (onIdle s)"
    by (rule live_inv_cong[OF l2[OF c(2)]]) (simp_all only: onIdle_fields)
qed

lemma sched_inv_start:
  assumes w: "wf_graph g" and n: "named g" and st: "start_execution g stepStartStates = Inr s"
  shows "sched_inv g stepStartStates s"
proof -
  from st obtain results where b: "buildStepResultsMap g stepStartStates = Inr results"
    by (auto simp: start_execution_def split: sum.splits)
  let ?s0 = "\<lparr>workingGraph = g, stepResultsMap = results, pendingTasks = [],
              isPaused = False, settled = None, logged = []\<rparr>"
  obtain s1 thrown where q: "enqueueLeafSteps g stepStartStates ?s0 = (s1, thrown)"
    by (cases "enqueueLeafSteps g stepStartStates ?s0")
  from st b q have s: "s = onIdle (case thrown of None \<Rightarrow> s1 | Some err \<Rightarrow> reject err s1)"
    by (simp add: start_execution_def)
  from initial_results(1)[OF b n] have o: "overallOrder g False = Inr (map fst results)" .
  have a: "acyclic (deps_rel g)" by (rule overallOrder_acyclic[OF o w])
  from overallOrder_set[OF o w] have ks: "set (map fst results) = names g"
    and kd: "distinct (map fst results)" by simp_all
  have sts: "status_of results k = Some (initial_status g stepStartStates k)"
    if "k \<in> names g" for k
  proof -
    from that ks obtain r where r: "(k, r) \<in> set results" by force
    with initial_results(3)[OF b n a] have "status r = initial_status g stepStartStates k" by auto
    with status_of_distinct[OF kd r] show ?thesis by simp
  qed
  have b0: "base_inv g stepStartStates ?s0"
    unfolding base_inv_def
    using w n a o initial_results(2)[OF b n] sts
    by (auto simp: barred_def intro: exI[where x=UNIV] restrict_graph_UNIV[symmetric])
  from enqueueLeafSteps_post[OF b0 q]
  have p: "base_inv g stepStartStates s1" "isPaused s1 = False" "settled s1 = None"
    "names (workingGraph s1) \<subseteq> names g"
    "names g - names (workingGraph s1) \<subseteq> fst ` set (pendingTasks s1)"
    "thrown = None \<Longrightarrow> quiescent g stepStartStates s1"
    by simp_all
  show ?thesis
  proof (cases thrown)
    case None
    from p(5) p(6)[OF None] have "live_inv g stepStartStates s1"
      by (auto simp: live_inv_def)
    have "sched_inv g stepStartStates (onIdle s1)"
      using p(1-3) \<open>live_inv g stepStartStates s1\<close> by (intro sched_inv_onIdle) simp_all
    with None s show ?thesis by simp
  next
    case (Some err)
    with p(3) have r: "reject err s1 = s1\<lparr>settled := Some (Inl err)\<rparr>" by (simp add: reject_def)
    have "base_inv g stepStartStates (reject err s1)"
      by (rule base_inv_cong[OF p(1)]) (simp_all add: r)
    then have "sched_inv g stepStartStates (onIdle (reject err s1))"
      by (rule sched_inv_onIdle) (simp_all add: r)
    with Some s show ?thesis by simp
  qed
qed

lemma live_inv_after_task:
  assumes b: "base_inv g stepStartStates s" and lv: "live_inv g stepStartStates s"
    and k: "k \<notin> names (workingGraph s)"
    and st: "st \<noteq> PENDING_EVALUATION"
    and s1: "s1 = s\<lparr>logged := l,
                     stepResultsMap := updateStepResultStatus (stepResultsMap s) k st enc\<rparr>"
    and p: "stepResultsMap s2 = stepResultsMap s1"
       "names (workingGraph s2) \<subseteq> names (workingGraph s1)"
       "names (workingGraph s1) - names (workingGraph s2) \<subseteq> fst ` set (pendingTasks s2)"
       "set (pendingTasks s1) \<subseteq> set (pendingTasks s2)"
       "quiescent g stepStartStates s2"
    and s3: "workingGraph s3 = workingGraph s2" "stepResultsMap s3 = stepResultsMap s2"
       "pendingTasks s3 = filter (\<lambda>(k', _). k' \<noteq> k) (pendingTasks s2)"
  shows "live_inv g stepStartStates s3"
  unfolding live_inv_def
proof (intro conjI ballI impI)
  from p(5) s3 show "quiescent g stepStartStates s3"
    by (simp add: quiescent_def ready_def)
next
  fix n assume n: "n \<in> names g - names (workingGraph s3)"
    and np: "n \<notin> fst ` set (pendingTasks s3)"
  have res: "stepResultsMap s3 = updateStepResultStatus (stepResultsMap s) k st enc"
    using s3(2) p(1) s1 by simp
  show "status_of (stepResultsMap s3) n \<noteq> Some PENDING_EVALUATION"
  proof (cases "n = k")
    case True
    with st show ?thesis by (auto simp: res status_of_update)
  next
    case False
    with np s3(3) have np2: "n \<notin> fst ` set (pendingTasks s2)" by force
    with p(3) n s3(1) have "n \<notin> names (workingGraph s1)" by auto
    then have nw: "n \<notin> names (workingGraph s)" by (simp add: s1)
    from np2 p(4) have "n \<notin> fst ` set (pendingTasks s)" by (auto simp: s1)
    with lv n nw have "status_of (stepResultsMap s) n \<noteq> Some PENDING_EVALUATION"
      by (auto simp: live_inv_def)
    with False show ?thesis by (simp add: res status_of_update)
  qed
qed

lemma sched_inv_run_task:
  assumes inv: "sched_inv g stepStartStates s"
    and t: "map_of (pendingTasks s) k = Some step"
  shows "sched_inv g stepStartStates (run_task g stepStartStates k step run s)"
proof -
  from inv have b: "base_inv g stepStartStates s" by (simp add: sched_inv_def)
  from t have tk: "(k, step) \<in> set (pendingTasks s)" by (rule map_of_SomeD)
  with b have nd: "map_of (nodes g) k = Some step" and kw: "k \<notin> names (workingGraph s)"
    by (auto simp: base_inv_def)
  from b nd have id: "step_id step = k"
    by (auto simp: base_inv_def named_def dest!: map_of_SomeD)
  from tk inv have nr: "settled s \<noteq> Some (Inr rs)" for rs by (auto simp: sched_inv_def)
  obtain x logs where x: "executeStep_status g stepStartStates (stepResultsMap s) step run = (x, logs)"
    by (cases "executeStep_status g stepStartStates (stepResultsMap s) step run")
  let ?drop = "\<lambda>s'. s'\<lparr>pendingTasks := filter (\<lambda>(k', _). k' \<noteq> k) (pendingTasks s')\<rparr>"
  have fatal: "sched_inv g stepStartStates (onIdle (?drop (handleUnexpectedError err s')))"
    if "base_inv g stepStartStates s'" "settled s' = settled s" for err s'
  proof (rule sched_inv_onIdle)
    show "base_inv g stepStartStates (?drop (handleUnexpectedError err s'))"
      by (rule base_inv_cong[OF that(1)])
         (auto simp: handleUnexpectedError_def reject_def)
    have se: "settled (?drop (handleUnexpectedError err s')) \<noteq> None"
      by (simp add: handleUnexpectedError_def reject_def)
    then show "\<not> isPaused (?drop (handleUnexpectedError err s'))"
      if "settled (?drop (handleUnexpectedError err s')) = None" using that by simp
    from se show "live_inv g stepStartStates (?drop (handleUnexpectedError err s'))"
      if "settled (?drop (handleUnexpectedError err s')) = None" using that by simp
    show "settled (?drop (handleUnexpectedError err s')) \<noteq> Some (Inr rs)" for rs
      using nr[of rs] that(2) by (auto simp: handleUnexpectedError_def reject_def)
  qed
  show ?thesis
  proof (cases x)
    case (Inl err)
    with x have e: "executeStep g stepStartStates step run s = (s\<lparr>logged := logged s @ logs\<rparr>, Some err)"
      by (simp add: executeStep_def)
    have "base_inv g stepStartStates (s\<lparr>logged := logged s @ logs\<rparr>)"
      by (rule base_inv_cong[OF b]) simp_all
    from fatal[OF this, of err] e show ?thesis by (simp add: run_task_def Let_def)
  next
    case (Inr st)
    let ?s1 = "s\<lparr>logged := logged s @ logs,
                   stepResultsMap := updateStepResultStatus (stepResultsMap s) k st
                                       (encounteredTypesForStep run)\<rparr>"
    obtain s2 thrown where q: "enqueueLeafSteps g stepStartStates ?s1 = (s2, thrown)"
      by (cases "enqueueLeafSteps g stepStartStates ?s1")
    from x Inr id q have e: "executeStep g stepStartStates step run s = (s2, thrown)"
      by (simp add: executeStep_def)
    from executeStep_status_terminal[of g stepStartStates "stepResultsMap s" step run st logs] x Inr
    have st: "st \<noteq> PENDING_EVALUATION" by auto
    have b1: "base_inv g stepStartStates ?s1" by (rule base_inv_update[OF b kw])
    from enqueueLeafSteps_post[OF b1 q]
    have p: "base_inv g stepStartStates s2" "stepResultsMap s2 = stepResultsMap ?s1"
      "isPaused s2 = isPaused s" "settled s2 = settled s"
      "names (workingGraph s2) \<subseteq> names (workingGraph ?s1)"
      "names (workingGraph ?s1) - names (workingGraph s2) \<subseteq> fst ` set (pendingTasks s2)"
      "set (pendingTasks ?s1) \<subseteq> set (pendingTasks s2)"
      "\<not> isPaused s \<Longrightarrow> thrown = None \<Longrightarrow> quiescent g stepStartStates s2"
      by simp_all
    show ?thesis
    proof (cases thrown)
      case (Some err)
      from fatal[OF p(1,4), of err] e Some show ?thesis by (simp add: run_task_def Let_def)
    next
      case None
      have "sched_inv g stepStartStates (onIdle (?drop s2))"
      proof (rule sched_inv_onIdle)
        show "base_inv g stepStartStates (?drop s2)"
          by (rule base_inv_cong[OF p(1)]) auto
        show "settled (?drop s2) \<noteq> Some (Inr rs)" for rs using nr[of rs] p(4) by simp
        assume "settled (?drop s2) = None"
        with p(4) have sn: "settled s = None" by simp
        with inv have np: "\<not> isPaused s" and lv: "live_inv g stepStartStates s"
          by (simp_all add: sched_inv_def)
        from np p(3) show "\<not> isPaused (?drop s2)" by simp
        show "live_inv g stepStartStates (?drop s2)"
          by (rule live_inv_after_task[OF b lv kw st refl p(2,5,6,7) p(8)[OF np None]])
             simp_all
      qed
      with e None show ?thesis by (simp add: run_task_def Let_def)
    qed
  qed
qed

lemma sched_inv_finish_task:
  assumes "sched_inv g stepStartStates s" and "finish_task g stepStartStates ev s = Some s'"
  shows "sched_inv g stepStartStates s'" and "fst ev \<notin> barred g stepStartStates"
proof -
  from assms(2) obtain step where t: "map_of (pendingTasks s) (fst ev) = Some step"
    and s': "s' = run_task g stepStartStates (fst ev) step (snd ev) s"
    by (auto simp: finish_task_def split: option.splits)
  from sched_inv_run_task[OF assms(1) t] s' show "sched_inv g stepStartStates s'" by simp
  from t have "(fst ev, step) \<in> set (pendingTasks s)" by (rule map_of_SomeD)
  with assms(1) show "fst ev \<notin> barred g stepStartStates"
    by (auto simp: sched_inv_def base_inv_def)
qed

lemma sched_inv_finish_tasks:
  assumes "sched_inv g stepStartStates s" and "finish_tasks g stepStartStates evs s = Some s'"
  shows "sched_inv g stepStartStates s' \<and> fst ` set evs \<inter> barred g stepStartStates = {}"
  using assms
proof (induction evs arbitrary: s)
  case Nil
  then show ?case by simp
next
  case (Cons ev evs)
  from Cons.prems(2) obtain s1 where f: "finish_task g stepStartStates ev s = Some s1"
    and r: "finish_tasks g stepStartStates evs s1 = Some s'"
    by (auto split: option.splits)
  from sched_inv_finish_task[OF Cons.prems(1) f] Cons.IH[OF _ r] show ?case by auto
qed

lemma sched_inv_run:
  assumes "wf_graph g" and "named g"
    and "executeStepDependencyGraph g stepStartStates evs = Some (Inr s)"
  shows "sched_inv g stepStartStates s" and "fst ` set evs \<inter> barred g stepStartStates = {}"
proof -
  from assms(3) obtain s0 where s0: "start_execution g stepStartStates = Inr s0"
    and f: "finish_tasks g stepStartStates evs s0 = Some s"
    by (auto simp: executeStepDependencyGraph_def split: sum.splits option.splits)
  from sched_inv_finish_tasks[OF sched_inv_start[OF assms(1,2) s0] f]
  show "sched_inv g stepStartStates s" and "fst ` set evs \<inter> barred g stepStartStates = {}"
    by simp_all
qed

section \<open>The order of the results\<close>

lemma result_ids_update:
  assumes "\<forall>(k, r) \<in> set results. result_id r = k"
  shows "\<forall>(k', r) \<in> set (updateStepResultStatus results k st enc). result_id r = k'"
proof (cases "map_of results k")
  case None
  with assms show ?thesis by (simp add: updateStepResultStatus_def)
next
  case (Some r)
  then have "(k, r) \<in> set results" by (rule map_of_SomeD)
  with assms have "result_id r = k" by auto
  with assms Some show ?thesis
    by (auto simp: updateStepResultStatus_def dest!: set_map_set)
qed

lemma order_inv_onIdle:
  assumes "overallOrder g False = Inr (map fst (stepResultsMap s))"
    and "\<forall>(k, r) \<in> set (stepResultsMap s). result_id r = k"
    and "\<And>rs. settled s \<noteq> Some (Inr rs)"
  shows "order_inv g (onIdle s)"
  unfolding order_inv_def
proof (intro conjI allI impI)
  from assms(1) show "overallOrder g False = Inr (map fst (stepResultsMap (onIdle s)))"
    by (simp only: onIdle_fields)
  from assms(2) show "\<forall>(k, r) \<in> set (stepResultsMap (onIdle s)). result_id r = k"
    by (simp only: onIdle_fields)
  fix rs assume "settled (onIdle s) = Some (Inr rs)"
  with assms(3) have "pendingTasks s = []" "rs = map snd (stepResultsMap s)"
    by (auto simp: settled_onIdle split: if_splits)
  then show "rs = map snd (stepResultsMap (onIdle s))" "pendingTasks (onIdle s) = []"
    by (simp_all only: onIdle_fields)
qed

lemma order_inv_start:
  assumes n: "named g" and st: "start_execution g stepStartStates = Inr s"
  shows "order_inv g s"
proof -
  from st obtain results where b: "buildStepResultsMap g stepStartStates = Inr results"
    by (auto simp: start_execution_def split: sum.splits)
  let ?s0 = "\<lparr>workingGraph = g, stepResultsMap = results, pendingTasks = [],
              isPaused = False, settled = None, logged = []\<rparr>"
  obtain s1 thrown where q: "enqueueLeafSteps g stepStartStates ?s0 = (s1, thrown)"
    by (cases "enqueueLeafSteps g stepStartStates ?s0")
  from st b q have s: "s = onIdle (case thrown of None \<Rightarrow> s1 | Some err \<Rightarrow> reject err s1)"
    by (simp add: start_execution_def)
  from enqueueLeafSteps_keeps[OF q] have k: "stepResultsMap s1 = results" "settled s1 = None"
    by simp_all
  let ?s2 = "case thrown of None \<Rightarrow> s1 | Some err \<Rightarrow> reject err s1"
  have r: "stepResultsMap ?s2 = results" "\<And>rs. settled ?s2 \<noteq> Some (Inr rs)"
    using k by (auto simp: reject_def split: option.splits)
  have "order_inv g (onIdle ?s2)"
  proof (rule order_inv_onIdle)
    show "overallOrder g False = Inr (map fst (stepResultsMap ?s2))"
      using initial_results(1)[OF b n] by (simp only: r(1))
    show "\<forall>(k, r) \<in> set (stepResultsMap ?s2). result_id r = k"
      using initial_results(2)[OF b n] by (simp only: r(1))
    show "settled ?s2 \<noteq> Some (Inr rs)" for rs by (rule r(2))
  qed
  with s show ?thesis by simp
qed

lemma order_inv_run_task:
  assumes inv: "order_inv g s" and t: "map_of (pendingTasks s) k = Some step"
  shows "order_inv g (run_task g stepStartStates k step run s)"
proof -
  from t have "pendingTasks s \<noteq> []" by auto
  with inv have nr: "settled s \<noteq> Some (Inr rs)" for rs by (auto simp: order_inv_def)
  obtain s1 thrown where e: "executeStep g stepStartStates step run s = (s1, thrown)"
    by (cases "executeStep g stepStartStates step run s")
  have r: "settled s1 = settled s
     \<and> (stepResultsMap s1 = stepResultsMap s
          \<or> (\<exists>st. stepResultsMap s1 =
                updateStepResultStatus (stepResultsMap s) (step_id step) st
                  (encounteredTypesForStep run)))"
  proof (cases "executeStep_status g stepStartStates (stepResultsMap s) step run")
    case (Pair x logs)
    show ?thesis
    proof (cases x)
      case (Inl err)
      with Pair e show ?thesis by (auto simp: executeStep_def)
    next
      case (Inr st)
      with Pair e enqueueLeafSteps_keeps[of g stepStartStates _ s1 thrown]
      show ?thesis by (auto simp: executeStep_def)
    qed
  qed
  let ?s2 = "case thrown of None \<Rightarrow> s1 | Some err \<Rightarrow> handleUnexpectedError err s1"
  let ?s3 = "?s2\<lparr>pendingTasks := filter (\<lambda>(k', _). k' \<noteq> k) (pendingTasks ?s2)\<rparr>"
  have m: "stepResultsMap ?s3 = stepResultsMap s1"
    by (simp add: handleUnexpectedError_def reject_def split: option.splits)
  have sr: "settled ?s3 \<noteq> Some (Inr rs)" for rs
    using r nr[of rs] by (auto simp: handleUnexpectedError_def reject_def split: option.splits)
  from inv have o: "overallOrder g False = Inr (map fst (stepResultsMap s))"
    and i: "\<forall>(k, r) \<in> set (stepResultsMap s). result_id r = k"
    by (simp_all add: order_inv_def)
  from r o have o1: "overallOrder g False = Inr (map fst (stepResultsMap s1))"
    by (auto simp: keys_updateStepResultStatus)
  have i1: "\<forall>(k, r) \<in> set (stepResultsMap s1). result_id r = k"
  proof -
    from r consider "stepResultsMap s1 = stepResultsMap s"
      | st where "stepResultsMap s1 =
                updateStepResultStatus (stepResultsMap s) (step_id step) st
                  (encounteredTypesForStep run)" by blast
    then show ?thesis
    proof cases
      case 1
      with i show ?thesis by (simp only:)
    next
      case 2
      with result_ids_update[OF i] show ?thesis by (simp only:)
    qed
  qed
  have "order_inv g (onIdle ?s3)"
  proof (rule order_inv_onIdle)
    show "overallOrder g False = Inr (map fst (stepResultsMap ?s3))" using o1 by (simp only: m)
    show "\<forall>(k, r) \<in> set (stepResultsMap ?s3). result_id r = k" using i1 by (simp only: m)
    show "settled ?s3 \<noteq> Some (Inr rs)" for rs by (rule sr)
  qed
  with e show ?thesis by (simp add: run_task_def Let_def)
qed

lemma order_inv_finish_tasks:
  assumes "order_inv g s" and "finish_tasks g stepStartStates evs s = Some s'"
  shows "order_inv g s'"
  using assms
proof (induction evs arbitrary: s)
  case Nil
  then show ?case by simp
next
  case (Cons ev evs)
  from Cons.prems(2) obtain step where t: "map_of (pendingTasks s) (fst ev) = Some step"
    and r: "finish_tasks g stepStartStates evs
              (run_task g stepStartStates (fst ev) step (snd ev) s) = Some s'"
    by (auto simp: finish_task_def split: option.splits)
  from Cons.IH[OF order_inv_run_task[OF Cons.prems(1) t] r] show ?case .
qed

lemma disabledTruthy_iff:
  "(disabledTruthy stepStartStates n = Inr True)
     = (\<exists>st. stepStartStates n = Some st \<and> disabled st = Some True)"
  by (auto simp: disabledTruthy_def split: option.splits)

lemma barred_successor:
  assumes "wf_graph g" and "(n, t) \<in> (deps_rel g)\<^sup>+" and "n \<notin> barred g stepStartStates"
  shows "t \<notin> barred g stepStartStates"
proof
  assume t: "t \<in> barred g stepStartStates"
  from deps_rel_trancl_names(1)[OF assms(1,2)] have ng: "n \<in> names g" .
  from t have "disabledTruthy stepStartStates t = Inr True
     \<or> (\<exists>d. (t, d) \<in> (deps_rel g)\<^sup>+ \<and> disabledTruthy stepStartStates d = Inr True)"
    by (simp add: barred_def)
  then have "\<exists>d. (n, d) \<in> (deps_rel g)\<^sup>+ \<and> disabledTruthy stepStartStates d = Inr True"
    using assms(2) by (auto intro: trancl_trans)
  with ng assms(3) show False by (simp add: barred_def)
qed

text \<open>When the queue is idle and was never paused, no step is left waiting.\<close>

lemma no_pending_when_idle:
  assumes b: "base_inv g stepStartStates s" and lv: "live_inv g stepStartStates s"
    and p: "pendingTasks s = []"
    and bool: "\<forall>n \<in> names g. case stepStartStates n of None \<Rightarrow> False
                                  | Some st \<Rightarrow> disabled st \<noteq> None"
  shows "n \<in> names g \<Longrightarrow> status_of (stepResultsMap s) n \<noteq> Some PENDING_EVALUATION"
proof -
  from b have w: "wf_graph g" and a: "acyclic (deps_rel g)" by (simp_all add: base_inv_def)
  from b obtain S where S: "workingGraph s = restrict_graph g S" by (auto simp: base_inv_def)
  have "wf (((deps_rel g)\<inverse>)\<^sup>+)"
    by (intro wf_trancl finite_acyclic_wf_converse finite_deps_rel w a)
  then show "n \<in> names g \<Longrightarrow> status_of (stepResultsMap s) n \<noteq> Some PENDING_EVALUATION"
  proof (induction n rule: wf_induct_rule)
    case (less n)
    have ih: "status_of (stepResultsMap s) t \<noteq> Some PENDING_EVALUATION"
      if "(n, t) \<in> (deps_rel g)\<^sup>+" for t
    proof (rule less.IH)
      from that show "(t, n) \<in> ((deps_rel g)\<inverse>)\<^sup>+" by (simp add: trancl_converse)
      from that show "t \<in> names g" by (rule deps_rel_trancl_names(2)[OF w])
    qed
    show ?case
    proof
      assume pe: "status_of (stepResultsMap s) n = Some PENDING_EVALUATION"
      have nw: "n \<in> names (workingGraph s)"
      proof (rule ccontr)
        assume "n \<notin> names (workingGraph s)"
        with less.prems p lv have "status_of (stepResultsMap s) n \<noteq> Some PENDING_EVALUATION"
          by (simp add: live_inv_def)
        with pe show False by simp
      qed
      with b pe have nb: "n \<notin> barred g stepStartStates"
        by (auto simp: base_inv_def initial_status_def split: if_splits)
      from nw have nS: "n \<in> S" by (simp add: S names_restrict)
      text \<open>\<open>n\<close> is enabled, its dependencies are complete, and it is a leaf.\<close>
      from bool less.prems obtain st where st: "stepStartStates n = Some st" "disabled st \<noteq> None"
        by (auto split: option.splits)
      from nb less.prems st have "disabled st \<noteq> Some True"
        by (auto simp: barred_def disabledTruthy_def)
      with st have en: "isStepEnabled stepStartStates n = Inr True"
        by (cases "disabled st") (auto simp: isStepEnabled_def)
      from ih have co: "stepDependenciesAreComplete g (stepResultsMap s) n = Inr True"
        by (simp add: stepDependenciesAreComplete_iff[OF w a less.prems])
      from out_entry[OF w less.prems] obtain es where es: "map_of (outgoingEdges g) n = Some es"
        by blast
      have "e \<notin> S" if e: "e \<in> set es" for e
      proof
        assume eS: "e \<in> S"
        from es e have ne: "(n, e) \<in> deps_rel g" by (auto simp: deps_rel_def intro: edge_relI)
        then have ne': "(n, e) \<in> (deps_rel g)\<^sup>+" by blast
        from deps_rel_names(2)[OF w ne] eS have ew: "e \<in> names (workingGraph s)"
          by (simp add: S names_restrict)
        from barred_successor[OF w ne' nb] have "e \<notin> barred g stepStartStates" .
        with b ew have "status_of (stepResultsMap s) e = Some PENDING_EVALUATION"
          by (simp add: base_inv_def initial_status_def)
        with ih[OF ne'] show False by simp
      qed
      then have "filter (\<lambda>e. e \<in> S) es = []" by (simp add: filter_empty_conv)
      with es nS have lf: "map_of (outgoingEdges (workingGraph s)) n = Some []"
        by (simp add: S out_restrict)
      from lv nw lf have "\<not> ready g stepStartStates s n"
        by (simp add: live_inv_def quiescent_def)
      with en co show False by (simp add: ready_def)
    qed
  qed
qed


section \<open>Runs of the small integration\<close>

lemma observe_resolved:
  assumes "observe r = Some (Some (Inr sts), paused, m, q)"
  obtains s results where "r = Some (Inr s)" and "settled s = Some (Inr results)"
    and "map status results = sts" and "map fst (pendingTasks s) = q"
    and "map (\<lambda>(k, res). (k, status res)) (stepResultsMap s) = m"
proof -
  from assms obtain s where s: "r = Some (Inr s)"
    by (auto simp: observe_def split: option.splits sum.splits)
  with assms have a: "map_option (map_sum (\<lambda>e. e) (map status)) (settled s) = Some (Inr sts)"
    and q: "map fst (pendingTasks s) = q"
    and m: "map (\<lambda>(k, res). (k, status res)) (stepResultsMap s) = m"
    by (simp_all add: observe_def)
  from a obtain results where "settled s = Some (Inr results)" "map status results = sts"
    by (cases "settled s") (auto simp: map_sum_def split: sum.splits)
  with s q m that show ?thesis by blast
qed

lemma named_diamond: "named diamond"
  by (simp add: named_def diamond_def diamond_step_def)

lemma wf_graph_diamond: "wf_graph diamond"
  by (simp add: wf_graph_def edges_ok_def diamond_def)

lemma diamond_run:
  "observe (executeStepDependencyGraph diamond all_enabled
              [(''a'', quiet_run), (''c'', quiet_run),
               (''b'', quiet_run\<lparr>executionHandler := Some some_error\<rparr>), (''d'', quiet_run)])
     = Some (Some (Inr [SUCCESS, FAILURE, SUCCESS, PARTIAL_SUCCESS_DUE_TO_DEPENDENCY_FAILURE]),
             False,
             [(''a'', SUCCESS), (''b'', FAILURE), (''c'', SUCCESS),
              (''d'', PARTIAL_SUCCESS_DUE_TO_DEPENDENCY_FAILURE)],
             [])"
  by code_simp

lemma diamond_order: "overallOrder diamond False = Inr [''a'', ''b'', ''c'', ''d'']"
  by code_simp

lemma b_disabled_run:
  "observe (executeStepDependencyGraph diamond b_disabled [(''a'', quiet_run), (''c'', quiet_run)])
     = Some (Some (Inr [SUCCESS, DISABLED, SUCCESS, DISABLED]), False,
             [(''a'', SUCCESS), (''b'', DISABLED), (''c'', SUCCESS), (''d'', DISABLED)], [])"
  by code_simp

lemma all_enabled_boolean:
  "\<forall>n \<in> names diamond. case all_enabled n of None \<Rightarrow> False | Some st \<Rightarrow> disabled st \<noteq> None"
  by (simp add: names_def diamond_def all_enabled_def enabled_state_def)


section \<open>Sizes under the changes \<open>shrinkRawData\<close> makes\<close>













lemma json_bytes_positive: "0 < json_bytes v"
proof (cases v)
  case (JNum n)
  have "0 < digits m" for m by (subst digits.simps) simp
  then show ?thesis using JNum by (simp add: number_bytes_def)
qed (simp_all add: quoted_bytes_def)





lemma sizeOfTruncated_eq: "sizeOfTruncated = 11"
  by (simp add: sizeOfTruncated_def)

section \<open>What the searches for the largest item return\<close>










section \<open>One round of \<open>shrinkRawData\<close>\<close>



lemma falsy_bytes: "\<not> json_truthy v \<Longrightarrow> json_bytes v \<le> 11"
  by (cases v) (auto simp: quoted_bytes_def number_bytes_def)






section \<open>The loop of \<open>shrinkRawData\<close>\<close>

lemma stuck_stays:
  assumes "stuck maxSize data total_size"
  shows "shrink_loop maxSize initial data total_size removed
         = shrink_loop maxSize initial data total_size (removed + 1)"
  using assms by (subst shrink_loop.simps) (simp add: stuck_def sizeOfTruncated_eq)



lemma stuck_never_returns_aux:
  assumes "shrink_loop maxSize initial data total_size removed = Some r"
  shows "\<not> stuck maxSize data total_size"
  using assms
proof (induction rule: shrink_loop.raw_induct[rotated 1, consumes 1])
  case (1 loop maxSize initial data total_size removed r)
  show ?case
  proof
    assume s: "stuck maxSize data total_size"
    then have "total_size > int maxSize" "shrink_round data = Inr (data, 11)"
      by (simp_all add: stuck_def)
    with 1(2) have "loop maxSize initial data total_size (removed + 1) = Some r"
      by (simp add: sizeOfTruncated_eq)
    from 1(1)[OF this] s show False by simp
  qed
qed

lemma stuck_never_returns:
  assumes "stuck maxSize data total_size"
  shows "shrink_loop maxSize initial data total_size removed = None"
  using stuck_never_returns_aux[of maxSize initial data total_size removed] assms
  by (cases "shrink_loop maxSize initial data total_size removed") auto

subsection \<open>Two runs\<close>


text \<open>The loop need not end. With nothing of a positive size to truncate, a round adds
  the property \<open>''\<close>, takes nothing off \<open>totalSize\<close> and adds eleven to it; every later
  round overwrites that property and leaves \<open>totalSize\<close> where it is.\<close>

lemma shrinkRawData_may_not_return:
  "shrinkRawData [all_falsy_entity] 50 = None"
proof -
  let ?d = "[JObj [(''_key'', JStr ''user:2''),
           (''_rawData'', JArr [JObj [(''name'', JStr ''default''),
                                      (''rawData'', JObj [(''deleted'', JBool False),
                                                          ([], TRUNCATED)])]])]]"
  have b: "json_bytes (JArr [all_falsy_entity]) = 79" by code_simp
  have r: "shrink_round [all_falsy_entity] = Inr (?d, 0)" by code_simp
  have r': "shrink_round ?d = Inr (?d, 11)" by code_simp
  have "stuck 50 ?d 90" using r' by (simp add: stuck_def)
  from stuck_never_returns[OF this] have "shrink_loop 50 79 ?d 90 1 = None" .
  moreover have "shrink_loop 50 79 [all_falsy_entity] 79 0 = shrink_loop 50 79 ?d 90 1"
    by (subst shrink_loop.simps) (simp add: r sizeOfTruncated_eq)
  ultimately show ?thesis unfolding shrinkRawData_def b by simp
qed


section \<open>The retries of \<open>uploadDataChunk\<close>\<close>

lemma calculateDelay_values:
  "calculateDelay 1 = 200" "calculateDelay 2 = 210" "calculateDelay 3 = 221"
  "calculateDelay 4 = 232"
proof -
  have "\<lfloor>401 / 2 :: rat\<rfloor> = 200" "\<lfloor>421 / 2 :: rat\<rfloor> = 210" "\<lfloor>442 / 2 :: rat\<rfloor> = 221"
    "\<lfloor>9281 / 40 :: rat\<rfloor> = 232"
    by (simp_all add: floor_eq_iff)
  then show "calculateDelay 1 = 200" "calculateDelay 2 = 210" "calculateDelay 3 = 221"
    "calculateDelay 4 = 232"
    by (simp_all add: calculateDelay_def delay_def factor_def round_def power_numeral_reduce)
qed

lemma posted_preceded [simp]: "posted (preceded body delays logs run) = body # posted run"
  and slept_preceded [simp]: "slept (preceded body delays logs run) = delays @ slept run"
  and rejected_preceded [simp]: "rejected (preceded body delays logs run) = rejected run"
  by (simp_all add: preceded_def)

declare makeAttempt.simps [simp del]

text \<open>The ways an attempt can end.\<close>

lemma makeAttempt_cases:
  assumes "makeAttempt post n remaining batch = Some run"
  obtains
    (Accepted) "post n batch = None" "posted run = [batch]" "slept run = []" "rejected run = None"
  | (Thrown) err thrown logs where "post n batch = Some err"
      "handleUploadDataChunkError err \<lparr>attemptNum = n, attemptsRemaining = remaining - 1\<rparr> batch
         = Some (Inl thrown, logs)"
      "posted run = [batch]" "slept run = []" "rejected run = Some thrown"
  | (Exhausted) err batch' logs where "post n batch = Some err"
      "handleUploadDataChunkError err \<lparr>attemptNum = n, attemptsRemaining = remaining - 1\<rparr> batch
         = Some (Inr batch', logs)"
      "remaining - 1 = 0"
      "posted run = [batch]" "slept run = []" "rejected run = Some err"
  | (Retried) err batch' logs rest where "post n batch = Some err"
      "handleUploadDataChunkError err \<lparr>attemptNum = n, attemptsRemaining = remaining - 1\<rparr> batch
         = Some (Inr batch', logs)"
      "remaining - 1 \<noteq> 0"
      "makeAttempt post (n + 1) (remaining - 1) batch' = Some rest"
      "run = preceded batch [calculateDelay (n + 1)] (LogUploading n (length batch) # logs) rest"
proof (cases "post n batch")
  case None
  with assms have "run = \<lparr>posted = [batch], slept = [],
                          upload_logs = [LogUploading n (length batch)], rejected = None\<rparr>"
    by (simp add: makeAttempt.simps)
  with None Accepted show ?thesis by simp
next
  case (Some err)
  let ?h = "handleUploadDataChunkError err \<lparr>attemptNum = n, attemptsRemaining = remaining - 1\<rparr> batch"
  from assms Some obtain res logs where h: "?h = Some (res, logs)"
    by (cases ?h) (auto simp: makeAttempt.simps)
  show ?thesis
  proof (cases res)
    case (Inl thrown)
    with assms Some h have "run = \<lparr>posted = [batch], slept = [],
                     upload_logs = LogUploading n (length batch) # logs,
                     rejected = Some thrown\<rparr>"
      by (simp add: makeAttempt.simps)
    with Some h Inl Thrown show ?thesis by simp
  next
    case (Inr batch')
    show ?thesis
    proof (cases "remaining - 1 = 0")
      case True
      with assms Some h Inr have "run = \<lparr>posted = [batch], slept = [],
                          upload_logs = LogUploading n (length batch) # logs,
                          rejected = Some err\<rparr>"
        by (simp add: makeAttempt.simps)
      with Some h Inr True Exhausted show ?thesis by simp
    next
      case False
      with assms Some h Inr obtain rest where
        "makeAttempt post (n + 1) (remaining - 1) batch' = Some rest"
        "run = preceded batch [calculateDelay (n + 1)] (LogUploading n (length batch) # logs) rest"
        by (auto simp: makeAttempt.simps)
      with Some h Inr False Retried show ?thesis by simp
    qed
  qed
qed

lemma handleUploadDataChunkError_batch:
  assumes "handleUploadDataChunkError err ctx batch = Some (Inr batch', logs)"
  shows "if isRequestUploadTooLargeError err
         then map_option (map_sum id fst) (shrinkRawData batch UPLOAD_SIZE_MAX) = Some (Inr batch')
         else batch' = batch"
  using assms
  by (auto simp: handleUploadDataChunkError_def Let_def split: if_splits option.splits sum.splits)


lemma makeAttempt_posted:
  assumes "makeAttempt post n remaining batch = Some run"
  shows "posted run \<noteq> [] \<and> hd (posted run) = batch
         \<and> length (posted run) \<le> max 1 remaining
         \<and> slept run = map calculateDelay [n + 1 ..< n + length (posted run)]
         \<and> retried post n (posted run)"
  using assms
proof (induction remaining arbitrary: n batch run rule: less_induct)
  case (less remaining)
  from less.prems show ?case
  proof (cases rule: makeAttempt_cases)
    case (Retried err batch' logs rest)
    from Retried(3) have "remaining - 1 < remaining" by simp
    from less.IH[OF this Retried(4)]
    have ne: "posted rest \<noteq> []" and hd: "hd (posted rest) = batch'"
      and len: "length (posted rest) \<le> max 1 (remaining - 1)"
      and sl: "slept rest = map calculateDelay [n + 1 + 1 ..< n + 1 + length (posted rest)]"
      and re: "retried post (n + 1) (posted rest)" by simp_all
    from ne hd obtain tl where p: "posted rest = batch' # tl" by (cases "posted rest") auto
    have "retried post n (batch # batch' # tl)"
      using re p Retried(1) handleUploadDataChunkError_batch[OF Retried(2)] by simp
    moreover have "[n + 1 ..< n + length (batch # posted rest)]
                   = (n + 1) # [n + 1 + 1 ..< n + 1 + length (posted rest)]"
    proof -
      have "n + 1 < n + length (batch # posted rest)" using p by simp
      from upt_conv_Cons[OF this] show ?thesis by simp
    qed
    moreover have "length (posted rest) \<le> remaining - 1" using len Retried(3) by simp
    ultimately show ?thesis using Retried(3,5) p sl by auto
  qed simp_all
qed


subsection \<open>Three uploads\<close>


lemma quoted_bytes_replicate: "quoted_bytes (replicate n CHR ''x'') = n + 2"
  by (induction n) (simp_all add: quoted_bytes_def char_bytes_def)

lemma json_bytes_big_entity: "json_bytes (JArr [big_entity n]) = n + 105"
  by (simp add: big_entity_def joined_bytes_def quoted_bytes_replicate)
     (simp add: quoted_bytes_def char_bytes_def)

lemma shrink_round_big_entity:
  assumes "2 < n"
  shows "shrink_round [big_entity n] = Inr ([truncated_entity], n + 2)"
  using assms
  apply (simp add: shrink_round_def getLargestEntityFromBatch_def item_bytes_def big_entity_def
      getLargestRawDataEntryFromEntity_def truncate_largest_item_def getLargestItemKeyAndByteSize_def
      property_bytes_def quoted_bytes_replicate truncated_entity_def TRUNCATED_def)
  apply (simp add: quoted_bytes_def char_bytes_def)
  done


lemma shrinkRawData_big_entity_default:
  "shrinkRawData [big_entity 6275072] UPLOAD_SIZE_MAX
   = Some (Inr ([truncated_entity],
                \<lparr>initialSize = 6275177, totalSize = 114, itemsRemoved = 1\<rparr>))"
proof -
  have r: "shrink_round [big_entity 6275072] = Inr ([truncated_entity], 6275074)"
    using shrink_round_big_entity[of 6275072] by simp
  have "shrink_loop 6275072 6275177 [big_entity 6275072] 6275177 0
        = shrink_loop 6275072 6275177 [truncated_entity] 114 1"
    by (subst shrink_loop.simps) (simp add: r sizeOfTruncated_eq)
  also have "\<dots> = Some (Inr ([truncated_entity],
                \<lparr>initialSize = 6275177, totalSize = 114, itemsRemoved = 1\<rparr>))"
    by (subst shrink_loop.simps) simp
  finally show ?thesis
    by (simp add: shrinkRawData_def UPLOAD_SIZE_MAX_def json_bytes_big_entity del: json_bytes.simps)
qed

lemma upload_of_big_entity:
  "uploadDataChunk (fails_first too_large) [big_entity 6275072]
   = Some \<lparr>posted = [[big_entity 6275072], [truncated_entity]], slept = [200],
           upload_logs = [LogUploading 0 1, LogAttemptingShrink,
                          LogShrinkResult \<lparr>initialSize = 6275177, totalSize = 114,
                                           itemsRemoved = 1\<rparr>,
                          LogWillRetry 0, LogUploading 1 1],
           rejected = None\<rparr>"
proof -
  have h: "handleUploadDataChunkError too_large \<lparr>attemptNum = 0, attemptsRemaining = 4\<rparr>
             [big_entity 6275072]
           = Some (Inr [truncated_entity],
                   [LogAttemptingShrink,
                    LogShrinkResult \<lparr>initialSize = 6275177, totalSize = 114, itemsRemoved = 1\<rparr>,
                    LogWillRetry 0])"
    by (simp add: handleUploadDataChunkError_def shrinkRawData_big_entity_default too_large_def
                  isRequestUploadTooLargeError_def)
  have "makeAttempt (fails_first too_large) 1 4 [truncated_entity]
        = Some \<lparr>posted = [[truncated_entity]], slept = [], upload_logs = [LogUploading 1 1],
                rejected = None\<rparr>"
    by (subst makeAttempt.simps) (simp add: fails_first_def)
  then show ?thesis
    unfolding uploadDataChunk_def maxAttempts_def
    by (subst makeAttempt.simps) (simp add: fails_first_def h calculateDelay_values(1)[unfolded One_nat_def] preceded_def)
qed



subsection \<open>An upload that fails\<close>


subsection \<open>The delays\<close>

lemma delays_of_attempts:
  assumes "0 < len"
  shows "map calculateDelay [1 ..< len]
         = map (\<lambda>i. nat (round (200 * (105 / 100) ^ i :: rat))) [0 ..< len - 1]"
proof -
  have "[1 ..< len] = map (\<lambda>i. i + 1) [0 ..< len - 1]"
    using assms map_add_upt[of 1 "len - 1"] by simp
  then show ?thesis by (simp add: calculateDelay_def delay_def factor_def comp_def)
qed


section \<open>Properties of one step execution\<close>

lemma nullish_coalesce_js_not: "nullish_coalesce (js_not v) fallback = js_not v"
  by (simp add: js_not_def)

text \<open>
  C9. For every step id and every map of start states, \<open>hasCachePath\<close>, written
  \<open>!!stepStartStates[stepId].stepCachePath ?? false\<close>, returns what the plain truthiness
  check \<open>!!stepStartStates[stepId].stepCachePath\<close> returns (and fails where it fails):
  the left operand of \<open>??\<close> is a boolean, so the fallback is never taken.
\<close>

theorem hasCachePath_is_truthiness_check:
  "hasCachePath stepStartStates stepId = hasCachePath_truthiness stepStartStates stepId
   \<and> nullish_coalesce (js_not (js_not v)) (JSBoolean False) = js_not (js_not v)"
  by (simp add: hasCachePath_def hasCachePath_truthiness_def nullish_coalesce_js_not
           split: option.splits)






lemma iterate_files_status:
  "iterate_files fs count st = Inr (n, st') \<Longrightarrow> st' = (if fs = [] then st else CACHED)"
proof (induction fs arbitrary: count st)
  case Nil
  then show ?case by simp
next
  case (Cons f fs)
  obtain k added where f: "f = (k, added)" by (cases f)
  with Cons.prems have i: "iterate_files fs (count + k) CACHED = Inr (n, st')"
    by (auto split: option.splits)
  from Cons.IH[OF i] show ?case by simp
qed

lemma loadCacheForStep_CACHED:
  assumes "loadCacheForStep entityFiles relationshipFiles = Inr (CACHED, logs)"
  shows "files entityFiles \<noteq> [] \<or> files relationshipFiles \<noteq> []"
    and "\<forall>ts. LogUndeclaredTypes ts \<notin> set logs"
proof -
  from assms obtain n1 st1 n2 where
    a: "iterate_files (files entityFiles) 0 FAILURE = Inr (n1, st1)"
    and b: "iterate_files (files relationshipFiles) 0 st1 = Inr (n2, CACHED)"
    by (auto simp: loadCacheForStep_def iterateParsedGraphFiles_def
             split: sum.splits prod.splits option.splits)
  from iterate_files_status[OF a] iterate_files_status[OF b]
  show "files entityFiles \<noteq> [] \<or> files relationshipFiles \<noteq> []"
    by (auto split: if_splits)
  from assms show "\<forall>ts. LogUndeclaredTypes ts \<notin> set logs"
    by (auto simp: loadCacheForStep_def split: sum.splits prod.splits if_splits)
qed

lemma executeStep_try_cached:
  assumes "hasCachePath stepStartStates (step_id step) = Inr c" and "truthy c"
    and "loadCacheForStep (cacheEntities run) (cacheRelationships run) = Inr (CACHED, logs)"
  shows "executeStep_try inputGraph stepStartStates results step run =
           Inr (CACHED, logs @ [LogStepSuccess (step_id step), LogStepSummary (step_id step)])"
  using assms by (simp add: executeStep_try_def)

text \<open>
  C10 (amended). For every step whose cache loader reports \<open>CACHED\<close> (then at least one
  entity or relationship file was loaded), the handler phase ends with status
  \<open>CACHED\<close> and without a warning about undeclared types, whatever the results of the
  dependencies are and whatever \<open>executionHandler\<close> would do: neither is consulted.
  \<open>CACHED\<close> is the status recorded for the step when neither \<open>flush\<close> nor the wait
  for the uploads throws.
\<close>

theorem cached_step_status:
  assumes "hasCachePath stepStartStates (step_id step) = Inr c" and "truthy c"
    and "loadCacheForStep (cacheEntities run) (cacheRelationships run) = Inr (CACHED, logs)"
  shows "(files (cacheEntities run) \<noteq> [] \<or> files (cacheRelationships run) \<noteq> [])
     \<and> fst (executeStep_handler inputGraph stepStartStates results step run) = Inr CACHED
     \<and> (\<forall>ts. LogUndeclaredTypes ts
               \<notin> set (snd (executeStep_status inputGraph stepStartStates results step run)))
     \<and> executeStep_status inputGraph stepStartStates results' step
          (run\<lparr>executionHandler := handler\<rparr>)
        = executeStep_status inputGraph stepStartStates results step run
     \<and> (flush run = None \<and> (\<forall>e. waitUntilUploadsComplete run \<noteq> Some (Some e))
          \<longrightarrow> fst (executeStep_status inputGraph stepStartStates results step run) = Inr CACHED)"
proof -
  let ?logs = "LogStepStart (step_id step) # logs
                 @ [LogStepSuccess (step_id step), LogStepSummary (step_id step)]"
  have h: "executeStep_handler inputGraph stepStartStates rs step r = (Inr CACHED, ?logs)"
    if "cacheEntities r = cacheEntities run" "cacheRelationships r = cacheRelationships run"
    for rs r
    using executeStep_try_cached[OF assms(1,2), of r logs inputGraph rs] assms(3) that
    by (simp add: executeStep_handler_def)
  have n: "\<forall>ts. LogUndeclaredTypes ts \<notin> set ?logs"
    using loadCacheForStep_CACHED(2)[OF assms(3)] by simp
  have "\<forall>ts. LogUndeclaredTypes ts
               \<notin> set (snd (executeStep_status inputGraph stepStartStates results step run))"
    using n by (auto simp: executeStep_status_def h split: option.splits)
  moreover have "executeStep_status inputGraph stepStartStates results' step
          (run\<lparr>executionHandler := handler\<rparr>)
        = executeStep_status inputGraph stepStartStates results step run"
    by (simp add: executeStep_status_def h cong: option.case_cong)
  moreover have "flush run = None \<and> (\<forall>e. waitUntilUploadsComplete run \<noteq> Some (Some e))
          \<longrightarrow> fst (executeStep_status inputGraph stepStartStates results step run) = Inr CACHED"
    by (auto simp: executeStep_status_def h split: option.splits)
  ultimately show ?thesis
    using loadCacheForStep_CACHED(1)[OF assms(3)] h[of run results] by simp
qed

lemma cached_run_loads:
  "loadCacheForStep (cacheEntities cached_run) (cacheRelationships cached_run)
     = Inr (CACHED, [LogCacheLoaded 3 2])"
  by (simp add: loadCacheForStep_def iterateParsedGraphFiles_def cached_run_def quiet_run_def)

lemma a_cached_hasCachePath:
  "hasCachePath a_cached (step_id (diamond_step ''a'' [])) = Inr (JSBoolean True)"
  by (simp add: hasCachePath_def a_cached_def cached_state_def cachePathValue_def js_not_def
                diamond_step_def)

theorem cached_step_status_witness:
  "hasCachePath a_cached (step_id (diamond_step ''a'' [])) = Inr (JSBoolean True)
   \<and> truthy (JSBoolean True)
   \<and> loadCacheForStep (cacheEntities cached_run) (cacheRelationships cached_run)
        = Inr (CACHED, [LogCacheLoaded 3 2])
   \<and> flush cached_run = None \<and> waitUntilUploadsComplete cached_run = Some None
   \<and> fst (executeStep_status diamond a_cached [] (diamond_step ''a'' []) cached_run) = Inr CACHED"
proof -
  have t: "truthy (JSBoolean True)" by simp
  have f: "flush cached_run = None" "waitUntilUploadsComplete cached_run = Some None"
    by (simp_all add: cached_run_def quiet_run_def)
  from cached_step_status[OF a_cached_hasCachePath t cached_run_loads, of diamond "[]"] f
  show ?thesis
    using a_cached_hasCachePath cached_run_loads by simp
qed

text \<open>
  C10 as stated fails: step \<open>a\<close> is loaded from its cache, the loader reports \<open>CACHED\<close>,
  the wait for the uploads throws, and the run resolves with \<open>a\<close> in status \<open>FAILURE\<close>.
\<close>

theorem cached_step_counterexample:
  "loadCacheForStep (cacheEntities cached_run) (cacheRelationships cached_run)
     = Inr (CACHED, [LogCacheLoaded 3 2])
   \<and> observe (executeStepDependencyGraph diamond a_cached
        [(''a'', cached_run\<lparr>waitUntilUploadsComplete := Some (Some some_error)\<rparr>),
         (''b'', quiet_run), (''c'', quiet_run), (''d'', quiet_run)])
     = Some (Some (Inr [FAILURE, PARTIAL_SUCCESS_DUE_TO_DEPENDENCY_FAILURE,
                        PARTIAL_SUCCESS_DUE_TO_DEPENDENCY_FAILURE,
                        PARTIAL_SUCCESS_DUE_TO_DEPENDENCY_FAILURE]),
             False,
             [(''a'', FAILURE), (''b'', PARTIAL_SUCCESS_DUE_TO_DEPENDENCY_FAILURE),
              (''c'', PARTIAL_SUCCESS_DUE_TO_DEPENDENCY_FAILURE),
              (''d'', PARTIAL_SUCCESS_DUE_TO_DEPENDENCY_FAILURE)],
             [])"
  by (rule conjI, rule cached_run_loads) code_simp

text \<open>
  C1 (amended). When the handler phase of a step has left a status and
  \<open>jobState.waitUntilUploadsComplete()\<close> throws after a \<open>flush\<close> that did not, the
  result of the step gets status \<open>FAILURE\<close> and the error goes no further:
  \<open>executeStep\<close> goes on to \<open>enqueueLeafSteps\<close>, and neither the pause flag of the queue
  nor the promise changes. When \<open>jobState.flush()\<close> throws, \<open>executeStep\<close> rejects with
  that error before any result is written: the queue is paused and the run rejects
  with it (unless the promise was settled before).
\<close>

theorem upload_wait_failure_is_not_fatal:
  assumes "fst (executeStep_handler inputGraph stepStartStates (stepResultsMap s) step run) = Inr st"
  shows "(flush run = None \<and> waitUntilUploadsComplete run = Some (Some err) \<longrightarrow>
            (\<exists>logs. executeStep inputGraph stepStartStates step run s =
               enqueueLeafSteps inputGraph stepStartStates
                 (s\<lparr>logged := logged s @ logs,
                    stepResultsMap := updateStepResultStatus (stepResultsMap s) (step_id step)
                                        FAILURE (encounteredTypesForStep run)\<rparr>))
            \<and> (let s' = fst (executeStep inputGraph stepStartStates step run s) in
                 map_of (stepResultsMap s') (step_id step)
                   = map_option (\<lambda>r. r\<lparr>status := FAILURE,
                                         encounteredTypes := encounteredTypesForStep run\<rparr>)
                       (map_of (stepResultsMap s) (step_id step))
                 \<and> isPaused s' = isPaused s \<and> settled s' = settled s))
       \<and> (flush run = Some err \<longrightarrow>
            snd (executeStep inputGraph stepStartStates step run s) = Some err
            \<and> (let s' = run_task inputGraph stepStartStates stepId step run s in
                 isPaused s' \<and> stepResultsMap s' = stepResultsMap s
                 \<and> (settled s = None \<longrightarrow> settled s' = Some (Inl err))))"
proof (intro conjI impI)
  assume a: "flush run = None \<and> waitUntilUploadsComplete run = Some (Some err)"
  obtain logs0 where h: "executeStep_handler inputGraph stepStartStates (stepResultsMap s) step run
      = (Inr st, logs0)"
    using assms by (cases "executeStep_handler inputGraph stepStartStates (stepResultsMap s) step run") auto
  let ?s1 = "s\<lparr>logged := logged s @ (logs0 @ [LogStepFailure (step_id step) err]),
                 stepResultsMap := updateStepResultStatus (stepResultsMap s) (step_id step)
                                     FAILURE (encounteredTypesForStep run)\<rparr>"
  from a h have e: "executeStep inputGraph stepStartStates step run s =
      enqueueLeafSteps inputGraph stepStartStates ?s1"
    by (simp add: executeStep_def executeStep_status_def)
  then show "\<exists>logs. executeStep inputGraph stepStartStates step run s =
               enqueueLeafSteps inputGraph stepStartStates
                 (s\<lparr>logged := logged s @ logs,
                    stepResultsMap := updateStepResultStatus (stepResultsMap s) (step_id step)
                                        FAILURE (encounteredTypesForStep run)\<rparr>)"
    by blast
  obtain s' thrown where q: "enqueueLeafSteps inputGraph stepStartStates ?s1 = (s', thrown)"
    by (cases "enqueueLeafSteps inputGraph stepStartStates ?s1")
  from enqueueLeafSteps_keeps[OF q] e q
  show "let s' = fst (executeStep inputGraph stepStartStates step run s) in
                 map_of (stepResultsMap s') (step_id step)
                   = map_option (\<lambda>r. r\<lparr>status := FAILURE,
                                         encounteredTypes := encounteredTypesForStep run\<rparr>)
                       (map_of (stepResultsMap s) (step_id step))
                 \<and> isPaused s' = isPaused s \<and> settled s' = settled s"
    by (simp add: Let_def map_of_updateStepResultStatus)
next
  assume a: "flush run = Some err"
  obtain logs0 where h: "executeStep_handler inputGraph stepStartStates (stepResultsMap s) step run
      = (Inr st, logs0)"
    using assms by (cases "executeStep_handler inputGraph stepStartStates (stepResultsMap s) step run") auto
  from a h have e: "executeStep inputGraph stepStartStates step run s =
      (s\<lparr>logged := logged s @ logs0\<rparr>, Some err)"
    by (simp add: executeStep_def executeStep_status_def)
  then show "snd (executeStep inputGraph stepStartStates step run s) = Some err" by simp
  from e show "let s' = run_task inputGraph stepStartStates stepId step run s in
                 isPaused s' \<and> stepResultsMap s' = stepResultsMap s
                 \<and> (settled s = None \<longrightarrow> settled s' = Some (Inl err))"
    by (simp add: run_task_def handleUnexpectedError_def reject_def onIdle_def Let_def)
qed

text \<open>
  C1 as stated fails for \<open>flush\<close>: step \<open>a\<close> of the diamond runs its handler, \<open>flush\<close>
  throws, and the run rejects with that error; the queue is paused, no result is
  written and the three other steps are never started.
\<close>

theorem flush_failure_counterexample:
  "observe (executeStepDependencyGraph diamond all_enabled
              [(''a'', quiet_run\<lparr>flush := Some some_error\<rparr>)])
     = Some (Some (Inl some_error), True,
             [(''a'', PENDING_EVALUATION), (''b'', PENDING_EVALUATION),
              (''c'', PENDING_EVALUATION), (''d'', PENDING_EVALUATION)],
             [])"
  by code_simp

theorem upload_wait_failure_is_not_fatal_witness:
  "fst (executeStep_handler diamond all_enabled [(''a'', result_of ''a'' PENDING_EVALUATION)]
          (diamond_step ''a'' []) quiet_run) = Inr SUCCESS
   \<and> status (the (map_of (stepResultsMap (fst (executeStep diamond all_enabled (diamond_step ''a'' [])
        (quiet_run\<lparr>waitUntilUploadsComplete := Some (Some some_error)\<rparr>)
        \<lparr>workingGraph = restrict_graph diamond (- {''a''}),
         stepResultsMap = [(''a'', result_of ''a'' PENDING_EVALUATION)],
         pendingTasks = [(''a'', diamond_step ''a'' [])], isPaused = False, settled = None,
         logged = []\<rparr>))) ''a'')) = FAILURE"
proof -
  let ?s = "\<lparr>workingGraph = restrict_graph diamond (- {''a''}),
         stepResultsMap = [(''a'', result_of ''a'' PENDING_EVALUATION)],
         pendingTasks = [(''a'', diamond_step ''a'' [])], isPaused = False, settled = None,
         logged = []\<rparr>"
  let ?run = "quiet_run\<lparr>waitUntilUploadsComplete := Some (Some some_error)\<rparr>"
  have h: "fst (executeStep_handler diamond all_enabled (stepResultsMap ?s)
          (diamond_step ''a'' []) ?run) = Inr SUCCESS"
    by code_simp
  have h': "fst (executeStep_handler diamond all_enabled [(''a'', result_of ''a'' PENDING_EVALUATION)]
          (diamond_step ''a'' []) quiet_run) = Inr SUCCESS"
    by code_simp
  have f: "flush ?run = None \<and> waitUntilUploadsComplete ?run = Some (Some some_error)"
    by (simp add: quiet_run_def)
  from upload_wait_failure_is_not_fatal[OF h, of some_error "''a''"] f h'
  show ?thesis
    by (simp add: Let_def diamond_step_def result_of_def)
qed


section \<open>Properties of a run of the scheduler\<close>

text \<open>
  C2. For every input graph whose nodes are named by the ids of their steps (as
  \<open>buildStepDependencyGraph\<close> names them), every map of start states and every run,
  whatever the order in which the steps finish and whatever they do: when the run
  resolves, the ids of the results vector, read in order, are the topological order
  \<open>overallOrder()\<close> of the input graph. When moreover the three tables of the graph
  agree, that order lists every step exactly once.
\<close>

theorem results_follow_topological_order:
  assumes "named inputGraph"
    and "executeStepDependencyGraph inputGraph stepStartStates evs = Some (Inr s)"
    and "settled s = Some (Inr results)"
  shows "overallOrder inputGraph False = Inr (map result_id results)
     \<and> (wf_graph inputGraph \<longrightarrow>
          distinct (map result_id results) \<and> set (map result_id results) = names inputGraph)"
proof -
  from assms(2) obtain s0 where s0: "start_execution inputGraph stepStartStates = Inr s0"
    and f: "finish_tasks inputGraph stepStartStates evs s0 = Some s"
    by (auto simp: executeStepDependencyGraph_def split: sum.splits option.splits)
  from order_inv_finish_tasks[OF order_inv_start[OF assms(1) s0] f]
  have inv: "order_inv inputGraph s" .
  with assms(3) have rs: "results = map snd (stepResultsMap s)"
    and o: "overallOrder inputGraph False = Inr (map fst (stepResultsMap s))"
    and i: "\<forall>(k, r) \<in> set (stepResultsMap s). result_id r = k"
    by (simp_all add: order_inv_def)
  from i have "map result_id (map snd (stepResultsMap s)) = map fst (stepResultsMap s)"
    by (induction "stepResultsMap s") auto
  with rs o have r: "overallOrder inputGraph False = Inr (map result_id results)" by simp
  from overallOrder_set[OF r] have
    "wf_graph inputGraph \<longrightarrow>
          distinct (map result_id results) \<and> set (map result_id results) = names inputGraph"
    by simp
  with r show ?thesis by simp
qed

theorem results_follow_topological_order_witness:
  "named diamond
   \<and> (\<exists>s results.
        executeStepDependencyGraph diamond all_enabled
          [(''a'', quiet_run), (''c'', quiet_run),
           (''b'', quiet_run\<lparr>executionHandler := Some some_error\<rparr>), (''d'', quiet_run)]
          = Some (Inr s)
        \<and> settled s = Some (Inr results)
        \<and> map result_id results = [''a'', ''b'', ''c'', ''d''])"
proof -
  from diamond_run obtain s results where
    r: "executeStepDependencyGraph diamond all_enabled
          [(''a'', quiet_run), (''c'', quiet_run),
           (''b'', quiet_run\<lparr>executionHandler := Some some_error\<rparr>), (''d'', quiet_run)]
          = Some (Inr s)"
    and st: "settled s = Some (Inr results)"
    by (rule observe_resolved)
  from results_follow_topological_order[OF named_diamond r st] diamond_order
  have "map result_id results = [''a'', ''b'', ''c'', ''d'']" by simp
  with r st have "\<exists>s results.
        executeStepDependencyGraph diamond all_enabled
          [(''a'', quiet_run), (''c'', quiet_run),
           (''b'', quiet_run\<lparr>executionHandler := Some some_error\<rparr>), (''d'', quiet_run)]
          = Some (Inr s)
        \<and> settled s = Some (Inr results)
        \<and> map result_id results = [''a'', ''b'', ''c'', ''d'']"
    by (intro exI conjI)
  with named_diamond show ?thesis by (rule conjI)
qed

text \<open>
  C5. In every run on a well-formed graph, a step whose start state has
  \<open>disabled = true\<close>, and a step that has such a step among its dependencies
  (\<open>dependenciesOf\<close>, which is transitive), is never dispatched: it is not among the
  tasks that finished, so neither its \<open>executionHandler\<close> nor the cache loader ran
  for it, it is not in the queue, and it is still in the working graph. Its result
  has status \<open>DISABLED\<close>, also in the results vector the run resolves with.
\<close>

theorem disabled_steps_are_never_dispatched:
  assumes "wf_graph inputGraph" and "named inputGraph"
    and "executeStepDependencyGraph inputGraph stepStartStates evs = Some (Inr s)"
    and "hasNode inputGraph n"
    and "(\<exists>st. stepStartStates n = Some st \<and> disabled st = Some True)
         \<or> (\<exists>deps d st. dependenciesOf inputGraph n = Inr deps \<and> d \<in> set deps
               \<and> stepStartStates d = Some st \<and> disabled st = Some True)"
  shows "n \<notin> fst ` set evs \<and> n \<notin> fst ` set (pendingTasks s)
     \<and> hasNode (workingGraph s) n
     \<and> (\<exists>r. map_of (stepResultsMap s) n = Some r \<and> status r = DISABLED)
     \<and> (\<forall>results. settled s = Some (Inr results)
           \<longrightarrow> (\<exists>r \<in> set results. result_id r = n \<and> status r = DISABLED))"
proof -
  from sched_inv_run[OF assms(1-3)] have inv: "sched_inv inputGraph stepStartStates s"
    and ev: "fst ` set evs \<inter> barred inputGraph stepStartStates = {}" by simp_all
  from inv have b: "base_inv inputGraph stepStartStates s" by (simp add: sched_inv_def)
  then have a: "acyclic (deps_rel inputGraph)" by (simp add: base_inv_def)
  from assms(4) have ng: "n \<in> names inputGraph" by (simp add: hasNode_names)
  from assms(5) have "disabledTruthy stepStartStates n = Inr True
      \<or> (\<exists>d. (n, d) \<in> (deps_rel inputGraph)\<^sup>+ \<and> disabledTruthy stepStartStates d = Inr True)"
  proof
    assume "\<exists>st. stepStartStates n = Some st \<and> disabled st = Some True"
    then show ?thesis by (simp add: disabledTruthy_iff)
  next
    assume "\<exists>deps d st. dependenciesOf inputGraph n = Inr deps \<and> d \<in> set deps
               \<and> stepStartStates d = Some st \<and> disabled st = Some True"
    then obtain deps d where d: "dependenciesOf inputGraph n = Inr deps" "d \<in> set deps"
      "disabledTruthy stepStartStates d = Inr True"
      by (auto simp: disabledTruthy_iff)
    from dependenciesOf_set(1)[OF d(1) a] d(2) have "(n, d) \<in> (deps_rel inputGraph)\<^sup>+" by simp
    with d(3) show ?thesis by blast
  qed
  with ng have nb: "n \<in> barred inputGraph stepStartStates" by (simp add: barred_def)
  with b have nw: "n \<in> names (workingGraph s)" by (auto simp: base_inv_def)
  from nb ev have 1: "n \<notin> fst ` set evs" by blast
  from b nw have 2: "n \<notin> fst ` set (pendingTasks s)" by (auto simp: base_inv_def)
  from nw have 3: "hasNode (workingGraph s) n" by (simp add: hasNode_names)
  from b nw nb have "status_of (stepResultsMap s) n = Some DISABLED"
    by (simp add: base_inv_def initial_status_def)
  then obtain r where r: "map_of (stepResultsMap s) n = Some r" "status r = DISABLED"
    by (auto simp: status_of_def)
  from r(1) have rs: "(n, r) \<in> set (stepResultsMap s)" by (rule map_of_SomeD)
  with b have id: "result_id r = n" by (auto simp: base_inv_def)
  have 5: "\<exists>r \<in> set results. result_id r = n \<and> status r = DISABLED"
    if "settled s = Some (Inr results)" for results
  proof -
    from inv that have "results = map snd (stepResultsMap s)" by (simp add: sched_inv_def)
    with rs have "r \<in> set results" by force
    with id r(2) show ?thesis by blast
  qed
  from 1 2 3 r 5 show ?thesis by blast
qed

theorem disabled_steps_are_never_dispatched_witness:
  "wf_graph diamond \<and> named diamond \<and> hasNode diamond ''d''
   \<and> dependenciesOf diamond ''d'' = Inr [''a'', ''b'', ''c'']
   \<and> b_disabled ''b'' = Some disabled_state \<and> disabled disabled_state = Some True
   \<and> (\<exists>s results.
        executeStepDependencyGraph diamond b_disabled [(''a'', quiet_run), (''c'', quiet_run)]
          = Some (Inr s)
        \<and> settled s = Some (Inr results)
        \<and> (\<exists>r \<in> set results. result_id r = ''d'' \<and> status r = DISABLED))"
proof -
  from b_disabled_run obtain s results where
    r: "executeStepDependencyGraph diamond b_disabled [(''a'', quiet_run), (''c'', quiet_run)]
          = Some (Inr s)"
    and st: "settled s = Some (Inr results)"
    by (rule observe_resolved)
  have h: "hasNode diamond ''d''" by (simp add: hasNode_def diamond_def)
  have d: "dependenciesOf diamond ''d'' = Inr [''a'', ''b'', ''c'']" by code_simp
  have bs: "b_disabled ''b'' = Some disabled_state" by (simp add: b_disabled_def)
  have ds: "disabled disabled_state = Some True" by (simp add: disabled_state_def)
  have "(\<exists>st. b_disabled ''d'' = Some st \<and> disabled st = Some True)
         \<or> (\<exists>deps d st. dependenciesOf diamond ''d'' = Inr deps \<and> d \<in> set deps
               \<and> b_disabled d = Some st \<and> disabled st = Some True)"
    using d bs ds by (intro disjI2 exI[of _ "[''a'', ''b'', ''c'']"] exI[of _ "''b''"]
                        exI[of _ disabled_state]) simp
  from disabled_steps_are_never_dispatched[OF wf_graph_diamond named_diamond r h this] st
  have "\<exists>r \<in> set results. result_id r = ''d'' \<and> status r = DISABLED" by simp
  with r st have "\<exists>s results.
        executeStepDependencyGraph diamond b_disabled [(''a'', quiet_run), (''c'', quiet_run)]
          = Some (Inr s)
        \<and> settled s = Some (Inr results)
        \<and> (\<exists>r \<in> set results. result_id r = ''d'' \<and> status r = DISABLED)"
    by (intro exI conjI)
  with wf_graph_diamond named_diamond h d bs ds show ?thesis by (intro conjI)
qed

text \<open>
  C4. In every run on a well-formed graph in which the start state of every step
  sets \<open>disabled\<close> to a boolean: when the run resolves (so no error has rejected it),
  every step of the graph has a result in the resolved vector, and no result has
  status \<open>PENDING_EVALUATION\<close>.
\<close>

theorem resolved_results_are_terminal:
  assumes "wf_graph inputGraph" and "named inputGraph"
    and "\<forall>n \<in> names inputGraph. case stepStartStates n of None \<Rightarrow> False
                                        | Some st \<Rightarrow> disabled st \<noteq> None"
    and "executeStepDependencyGraph inputGraph stepStartStates evs = Some (Inr s)"
    and "settled s = Some (Inr results)"
  shows "(\<forall>r \<in> set results. status r \<noteq> PENDING_EVALUATION)
     \<and> (\<forall>n \<in> names inputGraph. \<exists>r \<in> set results. result_id r = n)"
proof -
  from sched_inv_run(1)[OF assms(1,2,4)] have inv: "sched_inv inputGraph stepStartStates s" .
  with assms(5) have b: "base_inv inputGraph stepStartStates s"
    and lv: "live_inv inputGraph stepStartStates s" and p: "pendingTasks s = []"
    and rs: "results = map snd (stepResultsMap s)"
    by (simp_all add: sched_inv_def)
  from b have o: "overallOrder inputGraph False = Inr (map fst (stepResultsMap s))"
    and i: "\<forall>(k, r) \<in> set (stepResultsMap s). result_id r = k"
    by (simp_all add: base_inv_def)
  from overallOrder_set[OF o assms(1)] have ks: "set (map fst (stepResultsMap s)) = names inputGraph"
    and kd: "distinct (map fst (stepResultsMap s))" by simp_all
  have 1: "status r \<noteq> PENDING_EVALUATION" if "r \<in> set results" for r
  proof -
    from that rs obtain k where k: "(k, r) \<in> set (stepResultsMap s)" by auto
    then have "k \<in> names inputGraph" using ks by force
    from no_pending_when_idle[OF b lv p assms(3) this] status_of_distinct[OF kd k]
    show ?thesis by simp
  qed
  have 2: "\<exists>r \<in> set results. result_id r = n" if "n \<in> names inputGraph" for n
  proof -
    from that ks obtain r where r: "(n, r) \<in> set (stepResultsMap s)" by force
    with i have "result_id r = n" by auto
    moreover from r rs have "r \<in> set results" by force
    ultimately show ?thesis by blast
  qed
  from 1 2 show ?thesis by blast
qed

theorem resolved_results_are_terminal_witness:
  "wf_graph diamond \<and> named diamond
   \<and> list_all (\<lambda>n. case all_enabled n of None \<Rightarrow> False | Some st \<Rightarrow> disabled st \<noteq> None)
        (map fst (nodes diamond))
   \<and> (\<exists>s results.
        executeStepDependencyGraph diamond all_enabled
          [(''a'', quiet_run), (''c'', quiet_run),
           (''b'', quiet_run\<lparr>executionHandler := Some some_error\<rparr>), (''d'', quiet_run)]
          = Some (Inr s)
        \<and> settled s = Some (Inr results)
        \<and> (\<forall>r \<in> set results. status r \<noteq> PENDING_EVALUATION))"
proof -
  from diamond_run obtain s results where
    r: "executeStepDependencyGraph diamond all_enabled
          [(''a'', quiet_run), (''c'', quiet_run),
           (''b'', quiet_run\<lparr>executionHandler := Some some_error\<rparr>), (''d'', quiet_run)]
          = Some (Inr s)"
    and st: "settled s = Some (Inr results)"
    by (rule observe_resolved)
  from resolved_results_are_terminal[OF wf_graph_diamond named_diamond all_enabled_boolean r st]
  have "\<forall>r \<in> set results. status r \<noteq> PENDING_EVALUATION" by simp
  with r st have "\<exists>s results.
        executeStepDependencyGraph diamond all_enabled
          [(''a'', quiet_run), (''c'', quiet_run),
           (''b'', quiet_run\<lparr>executionHandler := Some some_error\<rparr>), (''d'', quiet_run)]
          = Some (Inr s)
        \<and> settled s = Some (Inr results)
        \<and> (\<forall>r \<in> set results. status r \<noteq> PENDING_EVALUATION)"
    by (intro exI conjI)
  moreover have "list_all (\<lambda>n. case all_enabled n of None \<Rightarrow> False
                                        | Some st \<Rightarrow> disabled st \<noteq> None)
                   (map fst (nodes diamond))"
    using all_enabled_boolean by (simp add: list_all_iff names_def)
  ultimately show ?thesis using wf_graph_diamond named_diamond by (intro conjI)
qed


section \<open>Claims about the upload of collected data\<close>






text \<open>
  Claim C8. Every \<open>uploadDataChunk\<close> call posts its batch at most five times. The delay
  before the first retry is 200 ms and each later one is 1.05 times longer, rounded to
  a millisecond. When an attempt fails with HTTP status 413 or the code
  \<open>RequestEntityTooLargeException\<close>, the next attempt posts the batch as \<open>shrinkRawData\<close>
  has left it; after any other error it posts the batch as it was.
\<close>

theorem uploadDataChunk_retry_policy:
  assumes "uploadDataChunk post batch = Some run"
  shows "posted run \<noteq> [] \<and> hd (posted run) = batch \<and> length (posted run) \<le> 5
         \<and> slept run = map (\<lambda>i. nat (round (200 * (105 / 100) ^ i :: rat)))
                          [0 ..< length (posted run) - 1]
         \<and> retried post 0 (posted run)"
proof -
  from assms have m: "makeAttempt post 0 maxAttempts batch = Some run"
    by (simp add: uploadDataChunk_def)
  from makeAttempt_posted[OF m]
  have ne: "posted run \<noteq> []" and hd: "hd (posted run) = batch"
    and len: "length (posted run) \<le> 5"
    and sl: "slept run = map calculateDelay [1 ..< length (posted run)]"
    and re: "retried post 0 (posted run)"
    by (simp_all add: maxAttempts_def)
  from ne have "0 < length (posted run)" by simp
  from delays_of_attempts[OF this] sl
  have "slept run = map (\<lambda>i. nat (round (200 * (105 / 100) ^ i :: rat)))
                          [0 ..< length (posted run) - 1]" by simp
  with ne hd len re show ?thesis by (intro conjI)
qed

theorem uploadDataChunk_retry_policy_witness:
  "uploadDataChunk (fails_first too_large) [big_entity 6275072]
     = Some \<lparr>posted = [[big_entity 6275072], [truncated_entity]], slept = [200],
           upload_logs = [LogUploading 0 1, LogAttemptingShrink,
                          LogShrinkResult \<lparr>initialSize = 6275177, totalSize = 114,
                                           itemsRemoved = 1\<rparr>,
                          LogWillRetry 0, LogUploading 1 1],
           rejected = None\<rparr>
   \<and> retried (fails_first too_large) 0 [[big_entity 6275072], [truncated_entity]]
   \<and> map (\<lambda>i. nat (round (200 * (105 / 100) ^ i :: rat))) [0 ..< 4] = [200, 210, 221, 232]"
proof -
  note u = upload_of_big_entity
  from uploadDataChunk_retry_policy[OF u]
  have "retried (fails_first too_large) 0 [[big_entity 6275072], [truncated_entity]]"
    by (simp del: retried.simps)
  moreover have "[0 ..< 4] = [0, 1, 2, 3 :: nat]" by (simp add: upt_rec)
  then have "map (\<lambda>i. nat (round (200 * (105 / 100) ^ i :: rat))) [0 ..< 4] = [200, 210, 221, 232]"
    using calculateDelay_values
    by (simp add: calculateDelay_def delay_def factor_def)
  ultimately show ?thesis using u by (intro conjI)
qed


end
